theory Spec2Isabelle
  imports Main "HOL-Library.Word"
begin

section \<open>The handler package of the worker: data model\<close>

text \<open>
  The theory embeds \<^verbatim>\<open>worker/handler/handler.go\<close>: the \<^verbatim>\<open>HandlerSet\<close> registry and
  the \<^verbatim>\<open>Handler\<close> with its methods \<^verbatim>\<open>RunStart\<close>, \<^verbatim>\<open>RunFinish\<close> and
  \<^verbatim>\<open>StopIfPaused\<close>. Every method body runs under the handler's mutex, so one call is
  one atomic step of the model. The registry manager, the sandbox factory, the sandbox,
  the pool manager, the LRU and the logger are collaborators outside the file: what
  they answer in one call of a method is given by an environment record, and every
  call made to them is recorded, in order, in the list of events the method returns.
\<close>

text \<open>
  Modelled from the spec: the package \<^verbatim>\<open>state\<close> that declares \<^verbatim>\<open>HandlerState\<close> is
  not among the sources; the four values are the ones the handler uses
  (\<^verbatim>\<open>state.Unitialized\<close>, \<^verbatim>\<open>state.Stopped\<close>, \<^verbatim>\<open>state.Running\<close>, \<^verbatim>\<open>state.Paused\<close>) and
  the ones the spec lists as the coarse state.
\<close>

datatype HandlerState = Unitialized | Stopped | Running | Paused

text \<open>
  A Go \<^verbatim>\<open>error\<close> value. \<^verbatim>\<open>ErrorsNew msg\<close> is the value \<^verbatim>\<open>errors.New(msg)\<close> built inside
  this package; \<^verbatim>\<open>Collaborator x\<close> is the error \<^verbatim>\<open>x\<close> that a collaborator handed back.
  The two are never the same value in Go either: \<^verbatim>\<open>errors.New\<close> allocates a new
  value at every call.
\<close>

type_synonym ext_error = string

datatype error = ErrorsNew string | Collaborator ext_error

text \<open>
  A sandbox handle (a non-nil value of the interface \<^verbatim>\<open>sb.Sandbox\<close>): an identity and
  whether its dynamic type also implements \<^verbatim>\<open>sb.ContainerSandbox\<close>, which is what the
  type assertion of \<^verbatim>\<open>RunStart\<close> asks.
\<close>

record Sandbox =
  sb_id :: nat
  is_container :: bool

type_synonym SandboxChannel = nat
type_synonym Time = nat
type_synonym PoolManager = nat

text \<open>Of \<^verbatim>\<open>config.Config\<close> the handler reads the field \<^verbatim>\<open>Worker_dir\<close> only.\<close>

record Config =
  Worker_dir :: string

text \<open>
  The struct \<^verbatim>\<open>Handler\<close>. The field \<^verbatim>\<open>hset\<close> is the back pointer to the registry: the
  methods take the registry as an argument instead. The mutex is the atomicity of a
  step. \<^verbatim>\<open>runners\<close> is a Go \<^verbatim>\<open>int\<close>, which is 64 bits wide on the 64-bit targets
  the worker runs on: a 64-bit word, so that \<^verbatim>\<open>+= 1\<close> and \<^verbatim>\<open>-= 1\<close> wrap around as they
  do in Go; \<^verbatim>\<open>sint\<close> reads the signed value.
\<close>

record Handler =
  name :: string
  sandbox :: "Sandbox option"
  lastPull :: "Time option"
  state :: HandlerState
  runners :: "64 word"
  code :: "char list"
  codeDir :: string

text \<open>
  The struct \<^verbatim>\<open>HandlerSet\<close>. The map \<^verbatim>\<open>handlers\<close> holds pointers: a pointer is an
  index of the heap of handlers kept beside the registry. \<^verbatim>\<open>poolMgr\<close> is \<^verbatim>\<open>None\<close> for
  the nil interface. The fields \<^verbatim>\<open>regMgr\<close>, \<^verbatim>\<open>sbFactory\<close> and \<^verbatim>\<open>lru\<close> are the
  collaborators of the environment record and of the events, and are taken to be
  non-nil, as \<^verbatim>\<open>config\<close> is; \<^verbatim>\<open>HandlerSetOpts\<close> keeps the two options that the model
  reads.
\<close>

record HandlerSet =
  handlers :: "string \<rightharpoonup> nat"
  poolMgr :: "PoolManager option"
  config :: Config

record HandlerSetOpts =
  PoolMgr :: "PoolManager option"
  Config :: Config

record world =
  hset :: HandlerSet
  heap :: "Handler list"

text \<open>
  The calls a method makes to its collaborators. \<^verbatim>\<open>path.Join\<close> is not evaluated: the
  sandbox directory is carried as the list of the path elements joined.
\<close>

datatype event =
    Pull string
  | MkdirAll "string list"
  | Create string "string list"
  | SbState Sandbox
  | SbStart Sandbox
  | SbUnpause Sandbox
  | SbPause Sandbox
  | SbStop Sandbox
  | SbChannel Sandbox
  | ForkEnter PoolManager Sandbox
  | LruAdd string
  | LruRemove string
  | LogPrintf string string error

text \<open>
  What the collaborators answer during one call of a method. No method calls the same
  operation twice, so one answer per operation is enough. \<^verbatim>\<open>State()\<close> and
  \<^verbatim>\<open>Channel()\<close> keep Go's pair of a value and an error, because the handler uses the
  value whatever the error is.
\<close>

record env =
  pull_out :: "ext_error + string"
  now_out :: Time
  mkdir_out :: "ext_error option"
  create_out :: "ext_error + Sandbox"
  state_out :: "HandlerState \<times> ext_error option"
  start_out :: "ext_error option"
  unpause_out :: "ext_error option"
  pause_out :: "ext_error option"
  stop_out :: "ext_error option"
  channel_out :: "SandboxChannel option \<times> ext_error option"

text \<open>A call returns, or panics on a nil sandbox (the deferred unlock still runs).\<close>

datatype 'a outcome = Returns 'a | Panics

section \<open>The registry\<close>

definition NewHandlerSet :: "HandlerSetOpts \<Rightarrow> HandlerSet" where
  "NewHandlerSet opts =
     \<lparr>handlers = Map.empty, poolMgr = PoolMgr opts, config = Config opts\<rparr>"

definition new_world :: "HandlerSetOpts \<Rightarrow> world" where
  "new_world opts = \<lparr>hset = NewHandlerSet opts, heap = []\<rparr>"

definition new_Handler :: "string \<Rightarrow> Handler" where
  "new_Handler n =
     \<lparr>name = n, sandbox = None, lastPull = None, state = Unitialized, runners = 0,
      code = [], codeDir = []\<rparr>"

definition Get :: "string \<Rightarrow> world \<Rightarrow> nat \<times> world" where
  "Get n w =
     (case handlers (hset w) n of
        Some p \<Rightarrow> (p, w)
      | None \<Rightarrow>
          (let p = length (heap w)
           in (p, w\<lparr>hset := (hset w)\<lparr>handlers := (handlers (hset w))(n \<mapsto> p)\<rparr>,
                    heap := heap w @ [new_Handler n]\<rparr>)))"

section \<open>The methods of a handler\<close>

definition sandbox_dir :: "HandlerSet \<Rightarrow> Handler \<Rightarrow> string list" where
  "sandbox_dir hs h = [Worker_dir (config hs), ''handlers'', name h, ''sandbox'']"

text \<open>Lines 110 to 119 of \<^verbatim>\<open>RunStart\<close>: get the code if needed.\<close>

definition get_code :: "env \<Rightarrow> Handler \<Rightarrow> Handler \<times> event list \<times> error option" where
  "get_code e h =
     (if lastPull h = None then
        (case pull_out e of
           Inl err \<Rightarrow> (h, [Pull (name h)], Some (Collaborator err))
         | Inr dir \<Rightarrow>
             (h\<lparr>lastPull := Some (now_out e), codeDir := dir\<rparr>, [Pull (name h)], None))
      else (h, [], None))"

text \<open>Lines 138 to 147: a newly created sandbox could be in any state; let it run.\<close>

definition let_it_run :: "env \<Rightarrow> Handler \<Rightarrow> Sandbox \<Rightarrow> event list \<times> error option" where
  "let_it_run e h s =
     (if state h = Stopped then ([SbStart s], map_option Collaborator (start_out e))
      else if state h = Paused then ([SbUnpause s], map_option Collaborator (unpause_out e))
      else ([], None))"

text \<open>Lines 149 to 156: the pool manager and the type assertion.\<close>

definition fork_enter :: "HandlerSet \<Rightarrow> Sandbox \<Rightarrow> event list \<times> error option" where
  "fork_enter hs s =
     (case poolMgr hs of
        None \<Rightarrow> ([], None)
      | Some pm \<Rightarrow>
          (if \<not> is_container s
           then ([], Some (ErrorsNew ''forkenter only supported with ContainerSandbox''))
           else ([ForkEnter pm s], None)))"

text \<open>Lines 123 to 156: the branch taken when the handler has no sandbox.\<close>

definition create_sandbox ::
  "HandlerSet \<Rightarrow> env \<Rightarrow> Handler \<Rightarrow> Handler \<times> event list \<times> error option" where
  "create_sandbox hs e h =
     (let dir = sandbox_dir hs h in
      case mkdir_out e of
        Some err \<Rightarrow> (h, [MkdirAll dir], Some (Collaborator err))
      | None \<Rightarrow>
          (case create_out e of
             Inl err \<Rightarrow>
               (h, [MkdirAll dir, Create (codeDir h) dir], Some (Collaborator err))
           | Inr s \<Rightarrow>
               (let h1 = h\<lparr>sandbox := Some s, state := fst (state_out e)\<rparr>;
                    ev1 = [MkdirAll dir, Create (codeDir h) dir, SbState s]
                in case snd (state_out e) of
                     Some err \<Rightarrow> (h1, ev1, Some (Collaborator err))
                   | None \<Rightarrow>
                       (case let_it_run e h1 s of
                          (ev2, Some err) \<Rightarrow> (h1, ev1 @ ev2, Some err)
                        | (ev2, None) \<Rightarrow>
                            (case fork_enter hs s of
                               (ev3, r) \<Rightarrow> (h1, ev1 @ ev2 @ ev3, r))))))"

text \<open>Lines 157 to 162: the branch taken when a sandbox exists and is paused.\<close>

definition unpause_if_paused ::
  "env \<Rightarrow> Handler \<Rightarrow> Sandbox \<Rightarrow> Handler \<times> event list \<times> error option" where
  "unpause_if_paused e h s =
     (if state h = Paused then
        (case unpause_out e of
           Some err \<Rightarrow> (h, [SbUnpause s], Some (Collaborator err))
         | None \<Rightarrow> (h, [SbUnpause s, LruRemove (name h)], None))
      else (h, [], None))"

text \<open>
  \<^verbatim>\<open>RunStart\<close>. The result is Go's pair \<^verbatim>\<open>(ch, err)\<close>; the last line hands on
  whatever \<^verbatim>\<open>Channel()\<close> returns, after the state and the runner count are written.
\<close>

definition RunStart ::
  "HandlerSet \<Rightarrow> env \<Rightarrow> Handler \<Rightarrow>
     Handler \<times> event list \<times> (SandboxChannel option \<times> error option) outcome" where
  "RunStart hs e h =
     (case get_code e h of
        (h1, ev1, Some err) \<Rightarrow> (h1, ev1, Returns (None, Some err))
      | (h1, ev1, None) \<Rightarrow>
          (case (case sandbox h1 of
                   None \<Rightarrow> create_sandbox hs e h1
                 | Some s \<Rightarrow> unpause_if_paused e h1 s) of
             (h2, ev2, Some err) \<Rightarrow> (h2, ev1 @ ev2, Returns (None, Some err))
           | (h2, ev2, None) \<Rightarrow>
               (let h3 = h2\<lparr>state := Running, runners := runners h2 + 1\<rparr>
                in case sandbox h3 of
                     None \<Rightarrow> (h3, ev1 @ ev2, Panics)
                   | Some s \<Rightarrow>
                       (h3, ev1 @ ev2 @ [SbChannel s],
                        Returns (fst (channel_out e),
                                 map_option Collaborator (snd (channel_out e)))))))"

text \<open>\<^verbatim>\<open>RunFinish\<close>. It has no result; a nil sandbox panics at the call of \<^verbatim>\<open>Pause\<close>.\<close>

definition RunFinish :: "env \<Rightarrow> Handler \<Rightarrow> Handler \<times> event list \<times> unit outcome" where
  "RunFinish e h =
     (let h1 = h\<lparr>runners := runners h - 1\<rparr> in
      if runners h1 = 0 then
        (case sandbox h1 of
           None \<Rightarrow> (h1, [], Panics)
         | Some s \<Rightarrow>
             (let ev = (case pause_out e of
                          Some err \<Rightarrow>
                            [SbPause s,
                             LogPrintf (''Could not pause %v!  Error: %v'' @ [CHR 0x0A])
                               (name h1) (Collaborator err)]
                        | None \<Rightarrow> [SbPause s])
              in (h1\<lparr>state := Paused\<rparr>, ev @ [LruAdd (name h1)], Returns ())))
      else (h1, [], Returns ()))"

text \<open>\<^verbatim>\<open>StopIfPaused\<close>.\<close>

definition StopIfPaused :: "env \<Rightarrow> Handler \<Rightarrow> Handler \<times> event list \<times> unit outcome" where
  "StopIfPaused e h =
     (if state h \<noteq> Paused then (h, [], Returns ())
      else
        (case sandbox h of
           None \<Rightarrow> (h, [], Panics)
         | Some s \<Rightarrow>
             (case unpause_out e of
                Some err \<Rightarrow>
                  (h, [SbUnpause s,
                       LogPrintf (''Could not unpause %v to kill it!  Error: %v'' @ [CHR 0x0A])
                         (name h) (Collaborator err)], Returns ())
              | None \<Rightarrow>
                  (case stop_out e of
                     Some err \<Rightarrow>
                       (h, [SbUnpause s, SbStop s,
                            LogPrintf
                              (''Could not kill %v after unpausing!  Error: %v'' @ [CHR 0x0A])
                              (name h) (Collaborator err)], Returns ())
                   | None \<Rightarrow>
                       (h\<lparr>state := Stopped\<rparr>, [SbUnpause s, SbStop s], Returns ())))))"

section \<open>Sequences of calls\<close>

text \<open>
  A caller holds pointers it got from \<^verbatim>\<open>Get\<close> and calls the methods on them. Beside the
  world, a run keeps for every pointer the number of calls of \<^verbatim>\<open>RunStart\<close> that
  returned without an error and have not been answered by a \<^verbatim>\<open>RunFinish\<close> yet: the
  contract of \<^verbatim>\<open>RunFinish\<close> is that this number is positive. A step outside the
  contract, or on a pointer that \<^verbatim>\<open>Get\<close> never returned, is \<^verbatim>\<open>None\<close>.
\<close>

datatype call =
    CallGet string
  | CallRunStart nat env
  | CallRunFinish nat env
  | CallStopIfPaused nat env

definition succeeded :: "(SandboxChannel option \<times> error option) outcome \<Rightarrow> bool" where
  "succeeded r = (case r of Returns (ch, None) \<Rightarrow> True | _ \<Rightarrow> False)"

fun step :: "call \<Rightarrow> world \<times> (nat \<Rightarrow> nat) \<Rightarrow> (world \<times> (nat \<Rightarrow> nat)) option" where
  "step (CallGet n) (w, pend) = Some (snd (Get n w), pend)"
| "step (CallRunStart p e) (w, pend) =
     (if p < length (heap w) then
        (case RunStart (hset w) e (heap w ! p) of
           (h', ev, r) \<Rightarrow>
             Some (w\<lparr>heap := (heap w)[p := h']\<rparr>,
                   if succeeded r then pend(p := Suc (pend p)) else pend))
      else None)"
| "step (CallRunFinish p e) (w, pend) =
     (if p < length (heap w) \<and> 0 < pend p then
        (case RunFinish e (heap w ! p) of
           (h', ev, r) \<Rightarrow> Some (w\<lparr>heap := (heap w)[p := h']\<rparr>, pend(p := pend p - 1)))
      else None)"
| "step (CallStopIfPaused p e) (w, pend) =
     (if p < length (heap w) then
        (case StopIfPaused e (heap w ! p) of
           (h', ev, r) \<Rightarrow> Some (w\<lparr>heap := (heap w)[p := h']\<rparr>, pend))
      else None)"

fun run :: "call list \<Rightarrow> world \<times> (nat \<Rightarrow> nat) \<Rightarrow> (world \<times> (nat \<Rightarrow> nat)) option" where
  "run [] s = Some s"
| "run (c # cs) s = (case step c s of None \<Rightarrow> None | Some s' \<Rightarrow> run cs s')"

definition start :: "HandlerSetOpts \<Rightarrow> world \<times> (nat \<Rightarrow> nat)" where
  "start opts = (new_world opts, \<lambda>p. 0)"

text \<open>
  The branch of \<^verbatim>\<open>RunStart\<close> that creates the sandbox returns an error while the state
  it copied from the new sandbox is \<^verbatim>\<open>Running\<close>.
\<close>

definition aborts_Running :: "HandlerSet \<Rightarrow> env \<Rightarrow> Handler \<Rightarrow> bool" where
  "aborts_Running hs e h =
     (case get_code e h of
        (h1, ev1, Some err) \<Rightarrow> False
      | (h1, ev1, None) \<Rightarrow>
          (case sandbox h1 of
             Some s \<Rightarrow> False
           | None \<Rightarrow>
               (case create_sandbox hs e h1 of
                  (h2, ev2, Some err) \<Rightarrow> state h2 = Running
                | (h2, ev2, None) \<Rightarrow> False)))"

text \<open>The handler behind a pointer at the end of a run.\<close>

definition handler_at :: "nat \<Rightarrow> (world \<times> (nat \<Rightarrow> nat)) option \<Rightarrow> Handler option" where
  "handler_at p res =
     (case res of
        None \<Rightarrow> None
      | Some (w, pend) \<Rightarrow> (if p < length (heap w) then Some (heap w ! p) else None))"

text \<open>Which collaborator an event is a call of.\<close>

fun is_Pull :: "event \<Rightarrow> bool" where
  "is_Pull (Pull n) = True"
| "is_Pull ev = False"

fun is_SbChannel :: "event \<Rightarrow> bool" where
  "is_SbChannel (SbChannel s) = True"
| "is_SbChannel ev = False"

fun is_ForkEnter :: "event \<Rightarrow> bool" where
  "is_ForkEnter (ForkEnter pm s) = True"
| "is_ForkEnter ev = False"

text \<open>
  \<^verbatim>\<open>RunStart\<close> takes the branch that creates the sandbox and every step of it before the
  pool manager is looked at succeeds: the fetch if there is one, the directory, the
  factory (which gives \<^verbatim>\<open>s\<close>), the state query, and the start or unpause if the state
  asks for one.
\<close>

definition reaches_fork_enter :: "env \<Rightarrow> Handler \<Rightarrow> Sandbox \<Rightarrow> bool" where
  "reaches_fork_enter e h s =
     (sandbox h = None \<and>
      (lastPull h = None \<longrightarrow> \<not> isl (pull_out e)) \<and>
      mkdir_out e = None \<and>
      create_out e = Inr s \<and>
      snd (state_out e) = None \<and>
      (fst (state_out e) = Stopped \<longrightarrow> start_out e = None) \<and>
      (fst (state_out e) = Paused \<longrightarrow> unpause_out e = None))"

definition forkenter_error :: error where
  "forkenter_error = ErrorsNew ''forkenter only supported with ContainerSandbox''"

text \<open>
  Whether the last \<^verbatim>\<open>RunStart\<close> on the handler behind \<^verbatim>\<open>p\<close> in a run was such a call;
  \<^verbatim>\<open>b\<close> is the answer before the run.
\<close>

fun last_abort :: "nat \<Rightarrow> bool \<Rightarrow> call list \<Rightarrow> world \<times> (nat \<Rightarrow> nat) \<Rightarrow> bool" where
  "last_abort p b [] s = b"
| "last_abort p b (c # cs) (w, pend) =
     (case step c (w, pend) of
        None \<Rightarrow> b
      | Some s' \<Rightarrow>
          last_abort p
            (case c of
               CallRunStart q e \<Rightarrow>
                 if q = p then aborts_Running (hset w) e (heap w ! p) else b
             | _ \<Rightarrow> b)
            cs s')"

text \<open>
  A call of \<^verbatim>\<open>RunStart\<close> that asks for the channel and does not succeed, and the number
  of such calls on the handler behind \<^verbatim>\<open>p\<close> in a run.
\<close>

definition leaks_runner :: "HandlerSet \<Rightarrow> env \<Rightarrow> Handler \<Rightarrow> bool" where
  "leaks_runner hs e h =
     (case RunStart hs e h of (h', ev, r) \<Rightarrow> list_ex is_SbChannel ev \<and> \<not> succeeded r)"

fun leaks :: "nat \<Rightarrow> call list \<Rightarrow> world \<times> (nat \<Rightarrow> nat) \<Rightarrow> nat" where
  "leaks p [] s = 0"
| "leaks p (c # cs) (w, pend) =
     (case step c (w, pend) of
        None \<Rightarrow> 0
      | Some s' \<Rightarrow>
          (case c of
             CallRunStart q e \<Rightarrow>
               if q = p \<and> leaks_runner (hset w) e (heap w ! p) then 1 else 0
           | _ \<Rightarrow> 0) + leaks p cs s')"

text \<open>
  By how much the runner count of a handler exceeds its \<^verbatim>\<open>k\<close> started invocations not
  yet finished, in the arithmetic of the count.
\<close>

definition excess :: "Handler \<Rightarrow> nat \<Rightarrow> 64 word" where
  "excess h k = runners h - of_nat k"

text \<open>What holds of the fields of every handler.\<close>

definition handler_wf :: "Handler \<Rightarrow> bool" where
  "handler_wf h =
     ((sandbox h = None \<longrightarrow> state h = Unitialized) \<and>
      (lastPull h = None \<longrightarrow> sandbox h = None \<and> codeDir h = []))"

text \<open>
  What holds of the runner count of a handler that has \<^verbatim>\<open>k\<close> started invocations not
  yet finished, as long as the count has not wrapped around.
\<close>

definition handler_inv :: "Handler \<Rightarrow> nat \<Rightarrow> bool" where
  "handler_inv h k =
     (int k \<le> sint (runners h) \<and>
      (0 < sint (runners h) \<longrightarrow> state h = Running) \<and>
      (sandbox h = None \<longrightarrow> runners h = 0))"

definition world_inv :: "world \<times> (nat \<Rightarrow> nat) \<Rightarrow> bool" where
  "world_inv s =
     (case s of (w, pend) \<Rightarrow>
        (\<forall>p < length (heap w). handler_wf (heap w ! p)) \<and>
        (\<forall>p < length (heap w). handlers (hset w) (name (heap w ! p)) = Some p) \<and>
        (\<forall>n p. handlers (hset w) n = Some p \<longrightarrow>
           p < length (heap w) \<and> name (heap w ! p) = n))"

definition count_inv :: "nat \<Rightarrow> world \<times> (nat \<Rightarrow> nat) \<Rightarrow> bool" where
  "count_inv n s =
     (case s of (w, pend) \<Rightarrow>
        (\<forall>p < length (heap w).
           handler_inv (heap w ! p) (pend p) \<and> sint (runners (heap w ! p)) \<le> int n) \<and>
        (\<forall>p \<ge> length (heap w). pend p = 0))"

text \<open>
  The handler behind \<^verbatim>\<open>p\<close>, if there is one, has at least one runner when it is in
  state \<^verbatim>\<open>Running\<close>, unless \<^verbatim>\<open>b\<close>.
\<close>

definition counted_unless :: "bool \<Rightarrow> world \<Rightarrow> nat \<Rightarrow> bool" where
  "counted_unless b w p =
     (p < length (heap w) \<longrightarrow> \<not> b \<longrightarrow>
      state (heap w ! p) = Running \<longrightarrow> 1 \<le> sint (runners (heap w ! p)))"

text \<open>
  The invariant of the runner count, as the spec states it. The count is a Go \<^verbatim>\<open>int\<close>;
  its order is the signed one.
\<close>

definition runner_invariant :: "Handler \<Rightarrow> bool" where
  "runner_invariant h =
     (0 \<le> sint (runners h) \<and>
      (state h = Running \<longrightarrow> 1 \<le> sint (runners h)) \<and>
      (runners h = 0 \<longrightarrow> state h \<in> {Paused, Stopped, Unitialized}) \<and>
      (0 < sint (runners h) \<longrightarrow> state h = Running))"

subsection \<open>Concrete inputs\<close>

definition opts0 :: HandlerSetOpts where
  "opts0 = \<lparr>PoolMgr = None, Config = \<lparr>Worker_dir = ''/tmp/ol''\<rparr>\<rparr>"

definition opts_pool :: HandlerSetOpts where
  "opts_pool = \<lparr>PoolMgr = Some 1, Config = \<lparr>Worker_dir = ''/tmp/ol''\<rparr>\<rparr>"

definition sb0 :: Sandbox where
  "sb0 = \<lparr>sb_id = 0, is_container = False\<rparr>"

definition env_ok :: env where
  "env_ok =
     \<lparr>pull_out = Inr ''/code/hello'', now_out = 7, mkdir_out = None, create_out = Inr sb0,
      state_out = (Stopped, None), start_out = None, unpause_out = None, pause_out = None,
      stop_out = None, channel_out = (Some 3, None)\<rparr>"

definition h_running :: Handler where
  "h_running =
     \<lparr>name = ''hello'', sandbox = Some sb0, lastPull = Some 7, state = Running, runners = 1,
      code = [], codeDir = ''/code/hello''\<rparr>"

definition h_paused :: Handler where
  "h_paused =
     \<lparr>name = ''hello'', sandbox = Some sb0, lastPull = Some 7, state = Paused, runners = 0,
      code = [], codeDir = ''/code/hello''\<rparr>"

definition h_created :: Handler where
  "h_created =
     \<lparr>name = ''hello'', sandbox = Some sb0, lastPull = Some 7, state = Stopped, runners = 0,
      code = [], codeDir = ''/code/hello''\<rparr>"

definition h_pulled :: Handler where
  "h_pulled =
     \<lparr>name = ''hello'', sandbox = None, lastPull = Some 7, state = Unitialized, runners = 0,
      code = [], codeDir = ''/code/hello''\<rparr>"

definition w_paused :: world where
  "w_paused =
     \<lparr>hset = \<lparr>handlers = [''hello'' \<mapsto> 0], poolMgr = None,
              config = \<lparr>Worker_dir = ''/tmp/ol''\<rparr>\<rparr>,
      heap = [h_paused]\<rparr>"

definition w_fresh :: world where
  "w_fresh =
     \<lparr>hset = \<lparr>handlers = [''hello'' \<mapsto> 0], poolMgr = None,
              config = \<lparr>Worker_dir = ''/tmp/ol''\<rparr>\<rparr>,
      heap = [new_Handler ''hello'']\<rparr>"

definition h_aborted :: Handler where
  "h_aborted =
     \<lparr>name = ''hello'', sandbox = Some sb0, lastPull = Some 7, state = Running, runners = 0,
      code = [], codeDir = ''/code/hello''\<rparr>"

definition env_nochan :: env where
  "env_nochan = env_ok\<lparr>channel_out := (None, Some ''no channel'')\<rparr>"

definition w_count :: "64 word \<Rightarrow> world" where
  "w_count c =
     \<lparr>hset = \<lparr>handlers = [''hello'' \<mapsto> 0], poolMgr = None,
              config = \<lparr>Worker_dir = ''/tmp/ol''\<rparr>\<rparr>,
      heap = [h_running\<lparr>runners := c\<rparr>]\<rparr>"

definition h_overflow :: Handler where
  "h_overflow =
     \<lparr>name = ''hello'', sandbox = Some sb0, lastPull = Some 7, state = Running,
      runners = 2 ^ 63, code = [], codeDir = ''/code/hello''\<rparr>"

definition hello_dir :: "string list" where
  "hello_dir = [''/tmp/ol'', ''handlers'', ''hello'', ''sandbox'']"

section \<open>What every method keeps\<close>

lemma sint_plus_one: "sint (x :: 64 word) < 2 ^ 63 - 1 \<Longrightarrow> sint (x + 1) = sint x + 1"
proof -
  assume a: "sint x < 2 ^ 63 - 1"
  have b: "- (2 ^ 63) \<le> sint x" using sint_ge [of x] by simp
  have "sint (x + 1) = signed_take_bit 63 (sint x + 1)"
    by (simp add: sint_word_ariths)
  also have "\<dots> = sint x + 1"
    using a b by (intro signed_take_bit_int_eq_self) auto
  finally show ?thesis .
qed

lemma sint_minus_one: "- (2 ^ 63) < sint (x :: 64 word) \<Longrightarrow> sint (x - 1) = sint x - 1"
proof -
  assume a: "- (2 ^ 63) < sint x"
  have b: "sint x < 2 ^ 63" using sint_lt [of x] by simp
  have "sint (x - 1) = signed_take_bit 63 (sint x - 1)"
    by (simp add: sint_word_ariths)
  also have "\<dots> = sint x - 1"
    using a b by (intro signed_take_bit_int_eq_self) auto
  finally show ?thesis .
qed

lemma nat_bound: "Suc n < 2 ^ 63 \<Longrightarrow> int n < 2 ^ 63 - 1"
proof -
  assume "Suc n < 2 ^ 63"
  then have "int (Suc n) < int (2 ^ 63)" by (simp only: of_nat_less_iff)
  then show ?thesis by simp
qed

lemma name_new_Handler: "name (new_Handler n) = n"
  by (simp add: new_Handler_def)

lemma handler_wf_new: "handler_wf (new_Handler n)"
  by (simp add: handler_wf_def new_Handler_def)

lemma handler_inv_new: "handler_inv (new_Handler n) 0"
  by (simp add: handler_inv_def new_Handler_def)

lemmas RunStart_defs =
  RunStart_def get_code_def create_sandbox_def unpause_if_paused_def let_it_run_def
  fork_enter_def Let_def

lemma RunStart_name: "RunStart hs e h = (h', ev, r) \<Longrightarrow> name h' = name h"
  by (auto simp: RunStart_defs split: if_splits option.splits sum.splits prod.splits)

lemma RunFinish_name: "RunFinish e h = (h', ev, r) \<Longrightarrow> name h' = name h"
  by (auto simp: RunFinish_def Let_def split: if_splits option.splits)

lemma StopIfPaused_name: "StopIfPaused e h = (h', ev, r) \<Longrightarrow> name h' = name h"
  by (auto simp: StopIfPaused_def split: if_splits option.splits)

lemma RunStart_wf: "handler_wf h \<Longrightarrow> RunStart hs e h = (h', ev, r) \<Longrightarrow> handler_wf h'"
  by (auto simp: RunStart_defs handler_wf_def
      split: if_splits option.splits sum.splits prod.splits)

lemma RunFinish_wf: "handler_wf h \<Longrightarrow> RunFinish e h = (h', ev, r) \<Longrightarrow> handler_wf h'"
  by (auto simp: RunFinish_def Let_def handler_wf_def split: if_splits option.splits)

lemma StopIfPaused_wf: "handler_wf h \<Longrightarrow> StopIfPaused e h = (h', ev, r) \<Longrightarrow> handler_wf h'"
  by (auto simp: StopIfPaused_def handler_wf_def split: if_splits option.splits)

section \<open>What every run keeps\<close>

lemma world_inv_start: "world_inv (start opts)"
  by (simp add: world_inv_def start_def new_world_def NewHandlerSet_def)

lemma world_inv_pend: "world_inv (w, pend) \<Longrightarrow> world_inv (w, pend')"
  by (simp add: world_inv_def)

lemma Get_inv: "world_inv (w, pend) \<Longrightarrow> world_inv (snd (Get n w), pend)"
proof (cases "handlers (hset w) n")
  case None
  assume inv: "world_inv (w, pend)"
  have neq: "name (heap w ! p) \<noteq> n" if "p < length (heap w)" for p
    using inv that None by (auto simp: world_inv_def)
  show ?thesis
    using inv None neq
    by (auto simp: world_inv_def Get_def Let_def nth_append handler_wf_new name_new_Handler
        less_Suc_eq)
next
  case (Some p)
  assume "world_inv (w, pend)"
  then show ?thesis using Some by (simp add: Get_def)
qed

lemma update_inv:
  assumes inv: "world_inv (w, pend)" and p: "p < length (heap w)"
    and nm: "name h' = name (heap w ! p)" and hi: "handler_wf h'"
  shows "world_inv (w\<lparr>heap := (heap w)[p := h']\<rparr>, pend')"
  using assms by (auto simp: world_inv_def nth_list_update)

lemma step_inv: "world_inv s \<Longrightarrow> step c s = Some s' \<Longrightarrow> world_inv s'"
proof (cases s)
  case (Pair w pend)
  assume inv: "world_inv s" and st: "step c s = Some s'"
  obtain w' pend' where s': "s' = (w', pend')" by (cases s')
  have wf: "handler_wf (heap w ! p)" if "p < length (heap w)" for p
    using inv Pair that by (auto simp: world_inv_def)
  show ?thesis
  proof (cases c)
    case (CallGet n)
    then have "w' = snd (Get n w)" using st Pair s' by simp
    then show ?thesis
      using world_inv_pend [OF Get_inv [OF inv [unfolded Pair], of n]] s' by simp
  next
    case (CallRunStart p e)
    with st Pair have p: "p < length (heap w)" by (auto split: if_splits)
    obtain h' ev r where rs: "RunStart (hset w) e (heap w ! p) = (h', ev, r)"
      by (cases "RunStart (hset w) e (heap w ! p)") auto
    have "w' = w\<lparr>heap := (heap w)[p := h']\<rparr>" using st Pair s' CallRunStart p rs by auto
    then show ?thesis
      using update_inv [OF inv [unfolded Pair] p RunStart_name [OF rs]
          RunStart_wf [OF wf [OF p] rs]] s'
      by simp
  next
    case (CallRunFinish p e)
    with st Pair have p: "p < length (heap w)" by (auto split: if_splits)
    obtain h' ev r where rs: "RunFinish e (heap w ! p) = (h', ev, r)"
      by (cases "RunFinish e (heap w ! p)") auto
    have "w' = w\<lparr>heap := (heap w)[p := h']\<rparr>"
      using st Pair s' CallRunFinish rs by (auto split: if_splits)
    then show ?thesis
      using update_inv [OF inv [unfolded Pair] p RunFinish_name [OF rs]
          RunFinish_wf [OF wf [OF p] rs]] s'
      by simp
  next
    case (CallStopIfPaused p e)
    with st Pair have p: "p < length (heap w)" by (auto split: if_splits)
    obtain h' ev r where rs: "StopIfPaused e (heap w ! p) = (h', ev, r)"
      by (cases "StopIfPaused e (heap w ! p)") auto
    have "w' = w\<lparr>heap := (heap w)[p := h']\<rparr>" using st Pair s' CallStopIfPaused p rs by auto
    then show ?thesis
      using update_inv [OF inv [unfolded Pair] p StopIfPaused_name [OF rs]
          StopIfPaused_wf [OF wf [OF p] rs]] s'
      by simp
  qed
qed

lemma run_inv: "world_inv s \<Longrightarrow> run cs s = Some s' \<Longrightarrow> world_inv s'"
proof (induction cs arbitrary: s)
  case Nil
  then show ?case by simp
next
  case (Cons c cs)
  then show ?case by (auto split: option.splits dest: step_inv)
qed

lemma reachable_wf:
  "run cs (start opts) = Some (w, pend) \<Longrightarrow> p < length (heap w) \<Longrightarrow>
   handler_wf (heap w ! p)"
  using run_inv [OF world_inv_start, of cs opts "(w, pend)"] by (auto simp: world_inv_def)

section \<open>Claims about one call\<close>

text \<open>
  Claim C4. For a handler that has a sandbox, \<^verbatim>\<open>RunFinish\<close> returns without an error
  whatever the sandbox answers. When the decrement brings the runner count to exactly
  0, the first call it makes is \<^verbatim>\<open>Pause\<close> on the sandbox, the last one is \<^verbatim>\<open>Add\<close> of
  the handler on the LRU, and the state is \<^verbatim>\<open>Paused\<close>, whether the pause succeeded or
  not; a failed pause is only logged between the two. When the decrement leaves the
  count different from 0, no collaborator is called at all (no pause, no \<^verbatim>\<open>Add\<close>) and
  the state is unchanged.
\<close>

theorem RunFinish_pauses_at_zero:
  assumes "sandbox h = Some s" and "RunFinish e h = (h', ev, r)"
  shows "r = Returns () \<and> runners h' = runners h - 1 \<and>
         (runners h - 1 = 0 \<longrightarrow>
            hd ev = SbPause s \<and> last ev = LruAdd (name h) \<and> state h' = Paused \<and>
            (pause_out e = None \<longrightarrow> ev = [SbPause s, LruAdd (name h)]) \<and>
            (pause_out e \<noteq> None \<longrightarrow>
               length ev = 3 \<and> (\<exists>f x. ev ! 1 = LogPrintf f (name h) x))) \<and>
         (runners h - 1 \<noteq> 0 \<longrightarrow> ev = [] \<and> state h' = state h)"
  using assms by (auto simp: RunFinish_def Let_def split: if_splits option.splits)

theorem RunFinish_pauses_at_zero_witness:
  "sandbox h_running = Some sb0 \<and>
   RunFinish (env_ok\<lparr>pause_out := Some ''frozen''\<rparr>) h_running =
     (h_paused,
      [SbPause sb0,
       LogPrintf (''Could not pause %v!  Error: %v'' @ [CHR 0x0A]) ''hello''
         (Collaborator ''frozen''),
       LruAdd ''hello''],
      Returns ()) \<and>
   state h_paused = Paused \<and> runners h_paused = runners h_running - 1"
proof -
  have a: "sandbox h_running = Some sb0" by (simp add: h_running_def)
  have b: "RunFinish (env_ok\<lparr>pause_out := Some ''frozen''\<rparr>) h_running =
     (h_paused,
      [SbPause sb0,
       LogPrintf (''Could not pause %v!  Error: %v'' @ [CHR 0x0A]) ''hello''
         (Collaborator ''frozen''),
       LruAdd ''hello''],
      Returns ())"
    by (simp add: RunFinish_def h_running_def h_paused_def env_ok_def Let_def)
  show ?thesis using RunFinish_pauses_at_zero [OF a b] a b by (simp add: h_running_def)
qed

section \<open>Concrete runs\<close>

lemmas example_defs =
  start_def new_world_def NewHandlerSet_def opts0_def opts_pool_def Get_def RunStart_defs
  RunFinish_def StopIfPaused_def env_ok_def new_Handler_def sandbox_dir_def succeeded_def
  h_paused_def h_running_def h_created_def h_pulled_def w_paused_def w_fresh_def sb0_def
  hello_dir_def forkenter_error_def h_aborted_def env_nochan_def w_count_def h_overflow_def

lemma run_to_paused:
  "run [CallGet ''hello'', CallRunStart 0 env_ok, CallRunFinish 0 env_ok] (start opts0) =
     Some (w_paused, (\<lambda>p. 0)(0 := Suc 0, 0 := Suc 0 - 1))"
  by (simp add: example_defs)

lemma w_paused_0: "0 < length (heap w_paused)" "heap w_paused ! 0 = h_paused"
  "hset w_paused = NewHandlerSet opts0\<lparr>handlers := [''hello'' \<mapsto> 0]\<rparr>"
  by (simp_all add: w_paused_def NewHandlerSet_def opts0_def)

section \<open>Claims about reachable handlers\<close>

text \<open>
  Claim C5. On a handler that a run of calls can reach, \<^verbatim>\<open>StopIfPaused\<close> always returns
  (it has no error to give back). Unless the state is exactly \<^verbatim>\<open>Paused\<close> it changes no
  field and calls no collaborator. When the state is \<^verbatim>\<open>Paused\<close> the handler has a
  sandbox and the first call is \<^verbatim>\<open>Unpause\<close>; if that fails, \<^verbatim>\<open>Stop\<close> is not called and
  the handler is unchanged (still \<^verbatim>\<open>Paused\<close>, the failure logged); if it succeeds,
  \<^verbatim>\<open>Stop\<close> is called next; if \<^verbatim>\<open>Stop\<close> fails the handler is unchanged (still
  \<^verbatim>\<open>Paused\<close>, the failure logged); only when both succeed does the state become
  \<^verbatim>\<open>Stopped\<close>, no other field changing.
\<close>

theorem StopIfPaused_cases:
  assumes "run cs (start opts) = Some (w, pend)" and "p < length (heap w)"
    and "StopIfPaused e (heap w ! p) = (h', ev, r)"
  shows "r = Returns () \<and>
         (state (heap w ! p) \<noteq> Paused \<longrightarrow> h' = heap w ! p \<and> ev = []) \<and>
         (state (heap w ! p) = Paused \<longrightarrow>
            (\<exists>s. sandbox (heap w ! p) = Some s \<and> hd ev = SbUnpause s \<and>
               (unpause_out e \<noteq> None \<longrightarrow>
                  h' = heap w ! p \<and> length ev = 2 \<and> SbStop s \<notin> set ev) \<and>
               (unpause_out e = None \<longrightarrow> take 2 ev = [SbUnpause s, SbStop s]) \<and>
               (unpause_out e = None \<and> stop_out e \<noteq> None \<longrightarrow>
                  h' = heap w ! p \<and> length ev = 3) \<and>
               (unpause_out e = None \<and> stop_out e = None \<longrightarrow>
                  h' = (heap w ! p)\<lparr>state := Stopped\<rparr> \<and> ev = [SbUnpause s, SbStop s])))"
  using reachable_wf [OF assms(1,2)] assms(3)
  by (auto simp: StopIfPaused_def handler_wf_def split: if_splits option.splits)

theorem StopIfPaused_cases_witness:
  "run [CallGet ''hello'', CallRunStart 0 env_ok, CallRunFinish 0 env_ok] (start opts0) =
     Some (w_paused, (\<lambda>p. 0)(0 := Suc 0, 0 := Suc 0 - 1)) \<and>
   0 < length (heap w_paused) \<and>
   StopIfPaused (env_ok\<lparr>stop_out := Some ''busy''\<rparr>) (heap w_paused ! 0) =
     (h_paused,
      [SbUnpause sb0, SbStop sb0,
       LogPrintf (''Could not kill %v after unpausing!  Error: %v'' @ [CHR 0x0A]) ''hello''
         (Collaborator ''busy'')],
      Returns ()) \<and>
   state h_paused = Paused"
proof -
  have b: "StopIfPaused (env_ok\<lparr>stop_out := Some ''busy''\<rparr>) (heap w_paused ! 0) =
     (h_paused,
      [SbUnpause sb0, SbStop sb0,
       LogPrintf (''Could not kill %v after unpausing!  Error: %v'' @ [CHR 0x0A]) ''hello''
         (Collaborator ''busy'')],
      Returns ())"
    by (simp add: w_paused_0 StopIfPaused_def h_paused_def env_ok_def)
  show ?thesis
    using StopIfPaused_cases [OF run_to_paused w_paused_0(1) b] run_to_paused w_paused_0(1) b
    by (simp add: h_paused_def)
qed

text \<open>
  Claim C6. On a reachable handler that has a sandbox and is \<^verbatim>\<open>Paused\<close>, \<^verbatim>\<open>RunStart\<close>
  calls \<^verbatim>\<open>Unpause\<close> on the sandbox. If that succeeds it calls \<^verbatim>\<open>Remove\<close> of the handler
  on the LRU, sets the state to \<^verbatim>\<open>Running\<close>, adds one to the runner count and returns
  what \<^verbatim>\<open>Channel()\<close> of the sandbox returns. If the unpause fails it returns that error,
  the handler is unchanged (state \<^verbatim>\<open>Paused\<close>, same runner count) and \<^verbatim>\<open>Remove\<close> was not
  called.
\<close>

theorem RunStart_resumes_paused:
  assumes "run cs (start opts) = Some (w, pend)" and "p < length (heap w)"
    and "sandbox (heap w ! p) = Some s" and "state (heap w ! p) = Paused"
    and "RunStart (hset w) e (heap w ! p) = (h', ev, r)"
  shows "(unpause_out e = None \<longrightarrow>
            ev = [SbUnpause s, LruRemove (name (heap w ! p)), SbChannel s] \<and>
            h' = (heap w ! p)\<lparr>state := Running, runners := runners (heap w ! p) + 1\<rparr> \<and>
            r = Returns (fst (channel_out e), map_option Collaborator (snd (channel_out e)))) \<and>
         (\<forall>x. unpause_out e = Some x \<longrightarrow>
            r = Returns (None, Some (Collaborator x)) \<and> h' = heap w ! p \<and>
            ev = [SbUnpause s])"
  using reachable_wf [OF assms(1,2)] assms(3,4,5)
  by (auto simp: RunStart_defs handler_wf_def split: if_splits option.splits)

theorem RunStart_resumes_paused_witness:
  "run [CallGet ''hello'', CallRunStart 0 env_ok, CallRunFinish 0 env_ok] (start opts0) =
     Some (w_paused, (\<lambda>p. 0)(0 := Suc 0, 0 := Suc 0 - 1)) \<and>
   0 < length (heap w_paused) \<and>
   sandbox (heap w_paused ! 0) = Some sb0 \<and> state (heap w_paused ! 0) = Paused \<and>
   RunStart (hset w_paused) env_ok (heap w_paused ! 0) =
     (h_running, [SbUnpause sb0, LruRemove ''hello'', SbChannel sb0], Returns (Some 3, None)) \<and>
   h_running = h_paused\<lparr>state := Running, runners := runners h_paused + 1\<rparr>"
proof -
  have c: "sandbox (heap w_paused ! 0) = Some sb0" "state (heap w_paused ! 0) = Paused"
    by (simp_all add: w_paused_0 h_paused_def)
  have d: "RunStart (hset w_paused) env_ok (heap w_paused ! 0) =
     (h_running, [SbUnpause sb0, LruRemove ''hello'', SbChannel sb0], Returns (Some 3, None))"
    by (simp add: w_paused_0 RunStart_defs h_paused_def h_running_def env_ok_def)
  show ?thesis
    using RunStart_resumes_paused [OF run_to_paused w_paused_0(1) c d] run_to_paused
      w_paused_0(1) c d
    by (simp add: h_paused_def h_running_def)
qed

text \<open>
  Claim C9. When \<^verbatim>\<open>StopIfPaused\<close> succeeds on a reachable paused handler (unpause and
  stop both succeed), the state is \<^verbatim>\<open>Stopped\<close> and the sandbox handle is still the same
  one, not nil. The next \<^verbatim>\<open>RunStart\<close> on that handler therefore makes one collaborator
  call only, \<^verbatim>\<open>Channel()\<close> on that sandbox: no pull, no factory, no start, no unpause.
  It sets the state to \<^verbatim>\<open>Running\<close>, adds one to the runner count and returns what
  \<^verbatim>\<open>Channel()\<close> returned.
\<close>

theorem RunStart_after_stop:
  assumes "run cs (start opts) = Some (w, pend)" and "p < length (heap w)"
    and "state (heap w ! p) = Paused"
    and "unpause_out e1 = None" and "stop_out e1 = None"
    and "StopIfPaused e1 (heap w ! p) = (h1, ev1, r1)"
    and "RunStart (hset w) e2 h1 = (h2, ev2, r2)"
  shows "state h1 = Stopped \<and> sandbox h1 = sandbox (heap w ! p) \<and>
         (\<exists>s. sandbox h1 = Some s \<and> ev2 = [SbChannel s]) \<and>
         state h2 = Running \<and> runners h2 = runners h1 + 1 \<and>
         r2 = Returns (fst (channel_out e2), map_option Collaborator (snd (channel_out e2)))"
  using reachable_wf [OF assms(1,2)] assms(3-)
  by (auto simp: RunStart_defs StopIfPaused_def handler_wf_def split: if_splits option.splits)

theorem RunStart_after_stop_witness:
  "run [CallGet ''hello'', CallRunStart 0 env_ok, CallRunFinish 0 env_ok] (start opts0) =
     Some (w_paused, (\<lambda>p. 0)(0 := Suc 0, 0 := Suc 0 - 1)) \<and>
   0 < length (heap w_paused) \<and> state (heap w_paused ! 0) = Paused \<and>
   unpause_out env_ok = None \<and> stop_out env_ok = None \<and>
   StopIfPaused env_ok (heap w_paused ! 0) =
     (h_paused\<lparr>state := Stopped\<rparr>, [SbUnpause sb0, SbStop sb0], Returns ()) \<and>
   RunStart (hset w_paused) env_ok (h_paused\<lparr>state := Stopped\<rparr>) =
     (h_running, [SbChannel sb0], Returns (Some 3, None)) \<and>
   sandbox (h_paused\<lparr>state := Stopped\<rparr>) = Some sb0 \<and> state h_running = Running"
proof -
  have c: "state (heap w_paused ! 0) = Paused" by (simp add: w_paused_0 h_paused_def)
  have u: "unpause_out env_ok = None" "stop_out env_ok = None" by (simp_all add: env_ok_def)
  have d: "StopIfPaused env_ok (heap w_paused ! 0) =
     (h_paused\<lparr>state := Stopped\<rparr>, [SbUnpause sb0, SbStop sb0], Returns ())"
    by (simp add: w_paused_0 StopIfPaused_def h_paused_def env_ok_def)
  have e: "RunStart (hset w_paused) env_ok (h_paused\<lparr>state := Stopped\<rparr>) =
     (h_running, [SbChannel sb0], Returns (Some 3, None))"
    by (simp add: w_paused_0 RunStart_defs h_paused_def h_running_def env_ok_def)
  show ?thesis
    using RunStart_after_stop [OF run_to_paused w_paused_0(1) c u d e] run_to_paused
      w_paused_0(1) c u d e
    by (simp add: h_paused_def h_running_def)
qed

section \<open>Errors on the branch that creates the sandbox\<close>

lemma RunStart_retry:
  assumes "sandbox h = None" and "lastPull h \<noteq> None"
  shows "\<not> list_ex is_Pull (fst (snd (RunStart hs e h))) \<and>
         hd (fst (snd (RunStart hs e h))) = MkdirAll (sandbox_dir hs h)"
  using assms
  by (auto simp: RunStart_defs split: if_splits option.splits sum.splits prod.splits)

lemma cold_error_fields:
  assumes "sandbox h = None" and "RunStart hs e h = (h', ev, r)"
    and "\<not> succeeded r" and "\<not> list_ex is_SbChannel ev"
  shows "name h' = name h \<and> runners h' = runners h \<and> code h' = code h \<and>
         (lastPull h = None \<and> isl (pull_out e) \<longrightarrow> h' = h) \<and>
         (\<not> (lastPull h = None \<and> isl (pull_out e)) \<and>
          (mkdir_out e \<noteq> None \<or> isl (create_out e)) \<longrightarrow>
            sandbox h' = None \<and> state h' = state h \<and>
            (lastPull h \<noteq> None \<longrightarrow> h' = h) \<and>
            (lastPull h = None \<longrightarrow>
               h' = h\<lparr>lastPull := Some (now_out e), codeDir := projr (pull_out e)\<rparr>))"
  using assms
  by (auto simp: RunStart_defs succeeded_def sandbox_dir_def
      split: if_splits option.splits sum.splits prod.splits)

text \<open>
  Claim C1, as amended. Let a handler have no sandbox and let \<^verbatim>\<open>RunStart\<close> return an
  error before it asks for the channel. Then the name, the runner count and the code
  are unchanged. If the failure is the code fetch, no field changes at all. If the
  fetch did not fail and the failure is the directory creation or the sandbox factory,
  the sandbox is still absent and the state is unchanged, and the handler differs from
  what it was at most by the \<^verbatim>\<open>lastPull\<close> and \<^verbatim>\<open>codeDir\<close> that a fetch made in this very
  call recorded; the next \<^verbatim>\<open>RunStart\<close> then skips the fetch and starts again at the
  directory creation. What a failure after the factory succeeded leaves behind is not
  stated here.
\<close>

theorem RunStart_cold_error:
  assumes "sandbox h = None" and "RunStart hs e h = (h', ev, r)"
    and "\<not> succeeded r" and "\<not> list_ex is_SbChannel ev"
  shows "name h' = name h \<and> runners h' = runners h \<and> code h' = code h \<and>
         (lastPull h = None \<and> isl (pull_out e) \<longrightarrow> h' = h) \<and>
         (\<not> (lastPull h = None \<and> isl (pull_out e)) \<and>
          (mkdir_out e \<noteq> None \<or> isl (create_out e)) \<longrightarrow>
            sandbox h' = None \<and> state h' = state h \<and>
            (lastPull h \<noteq> None \<longrightarrow> h' = h) \<and>
            (lastPull h = None \<longrightarrow>
               h' = h\<lparr>lastPull := Some (now_out e), codeDir := projr (pull_out e)\<rparr>) \<and>
            \<not> list_ex is_Pull (fst (snd (RunStart hs e2 h'))) \<and>
            hd (fst (snd (RunStart hs e2 h'))) = MkdirAll (sandbox_dir hs h))"
proof -
  note f = cold_error_fields [OF assms]
  have "\<not> list_ex is_Pull (fst (snd (RunStart hs e2 h'))) \<and>
        hd (fst (snd (RunStart hs e2 h'))) = MkdirAll (sandbox_dir hs h)"
    if c: "\<not> (lastPull h = None \<and> isl (pull_out e)) \<and>
           (mkdir_out e \<noteq> None \<or> isl (create_out e))"
  proof -
    have s: "sandbox h' = None" using f c by blast
    have l: "lastPull h' \<noteq> None"
    proof (cases "lastPull h")
      case None
      with f c have "h' = h\<lparr>lastPull := Some (now_out e), codeDir := projr (pull_out e)\<rparr>"
        by blast
      then show ?thesis by simp
    next
      case (Some t)
      with f c have "h' = h" by auto
      with Some show ?thesis by simp
    qed
    have d: "sandbox_dir hs h' = sandbox_dir hs h" using f by (simp add: sandbox_dir_def)
    show ?thesis using RunStart_retry [OF s l, of hs e2] d by simp
  qed
  with f show ?thesis by blast
qed

theorem RunStart_cold_error_witness:
  "sandbox (new_Handler ''hello'') = None \<and>
   RunStart (NewHandlerSet opts0) (env_ok\<lparr>mkdir_out := Some ''EACCES''\<rparr>) (new_Handler ''hello'') =
     (h_pulled, [Pull ''hello'', MkdirAll hello_dir], Returns (None, Some (Collaborator ''EACCES''))) \<and>
   runners h_pulled = runners (new_Handler ''hello'') \<and>
   sandbox h_pulled = None \<and> state h_pulled = state (new_Handler ''hello'') \<and>
   h_pulled = (new_Handler ''hello'')\<lparr>lastPull := Some 7, codeDir := ''/code/hello''\<rparr> \<and>
   hd (fst (snd (RunStart (NewHandlerSet opts0) env_ok h_pulled))) = MkdirAll hello_dir"
proof -
  have a: "sandbox (new_Handler ''hello'') = None" by (simp add: new_Handler_def)
  have b: "RunStart (NewHandlerSet opts0) (env_ok\<lparr>mkdir_out := Some ''EACCES''\<rparr>) (new_Handler ''hello'') =
     (h_pulled, [Pull ''hello'', MkdirAll hello_dir], Returns (None, Some (Collaborator ''EACCES'')))"
    by (simp add: example_defs)
  have c: "\<not> succeeded (Returns (None, Some (Collaborator ''EACCES'')))"
    by (simp add: succeeded_def)
  have d: "\<not> list_ex is_SbChannel [Pull ''hello'', MkdirAll hello_dir]" by simp
  have e: "lastPull (new_Handler ''hello'') = None" "pull_out env_ok = Inr ''/code/hello''"
    "now_out env_ok = 7" "sandbox_dir (NewHandlerSet opts0) (new_Handler ''hello'') = hello_dir"
    by (simp_all add: new_Handler_def env_ok_def sandbox_dir_def NewHandlerSet_def opts0_def
        hello_dir_def)
  show ?thesis
    using RunStart_cold_error [OF a b c d, of env_ok] a b e
    by simp
qed

text \<open>
  The claim C1 as the spec states it fails. A new handler whose fetch succeeds and whose
  directory creation fails is not left as it was: \<^verbatim>\<open>lastPull\<close> and \<^verbatim>\<open>codeDir\<close> are
  recorded. A new handler whose sandbox is created in state \<^verbatim>\<open>Stopped\<close> and whose start
  fails keeps the new sandbox and the state \<^verbatim>\<open>Stopped\<close>.
\<close>

theorem RunStart_cold_error_counterexample:
  "sandbox (new_Handler ''hello'') = None \<and>
   RunStart (NewHandlerSet opts0) (env_ok\<lparr>mkdir_out := Some ''EACCES''\<rparr>) (new_Handler ''hello'') =
     (h_pulled, [Pull ''hello'', MkdirAll hello_dir], Returns (None, Some (Collaborator ''EACCES''))) \<and>
   h_pulled \<noteq> new_Handler ''hello'' \<and>
   lastPull h_pulled \<noteq> lastPull (new_Handler ''hello'') \<and>
   RunStart (NewHandlerSet opts0) (env_ok\<lparr>start_out := Some ''start failed''\<rparr>) (new_Handler ''hello'') =
     (h_created, [Pull ''hello'', MkdirAll hello_dir, Create ''/code/hello'' hello_dir, SbState sb0, SbStart sb0],
      Returns (None, Some (Collaborator ''start failed''))) \<and>
   sandbox h_created \<noteq> None \<and> state h_created \<noteq> Unitialized"
  by (simp add: example_defs)

text \<open>
  Claim C7, as amended. \<^verbatim>\<open>RunStart\<close> returns the error \<^verbatim>\<open>forkenter only supported with
  ContainerSandbox\<close> if and only if a pool manager is configured, the call takes the
  branch that creates the sandbox, every step of that branch before the pool manager
  is looked at succeeds (fetch, directory, factory, state query, start or unpause) and
  the new sandbox is not a container sandbox. When under the same conditions the
  sandbox is a container sandbox, \<^verbatim>\<open>ForkEnter\<close> is called with it and that error is not
  returned. With no pool manager, \<^verbatim>\<open>ForkEnter\<close> is never called and that error is never
  returned. \<^verbatim>\<open>ForkEnter\<close> is called in no other case.
\<close>

theorem RunStart_forkenter:
  assumes "RunStart hs e h = (h', ev, r)"
  shows "((r = Returns (None, Some forkenter_error)) =
            (poolMgr hs \<noteq> None \<and> (\<exists>s. reaches_fork_enter e h s \<and> \<not> is_container s))) \<and>
         (\<forall>pm s. poolMgr hs = Some pm \<and> reaches_fork_enter e h s \<and> is_container s \<longrightarrow>
            ForkEnter pm s \<in> set ev \<and> r \<noteq> Returns (None, Some forkenter_error)) \<and>
         (poolMgr hs = None \<longrightarrow>
            \<not> list_ex is_ForkEnter ev \<and> r \<noteq> Returns (None, Some forkenter_error)) \<and>
         (list_ex is_ForkEnter ev \<longrightarrow>
            (\<exists>pm s. poolMgr hs = Some pm \<and> reaches_fork_enter e h s \<and> is_container s))"
  using assms
  by (auto simp: RunStart_defs reaches_fork_enter_def forkenter_error_def
      split: if_splits option.splits sum.splits prod.splits)

theorem RunStart_forkenter_witness:
  "RunStart (NewHandlerSet opts_pool) env_ok (new_Handler ''hello'') =
     (h_created,
      [Pull ''hello'', MkdirAll hello_dir, Create ''/code/hello'' hello_dir, SbState sb0,
       SbStart sb0],
      Returns (None, Some forkenter_error)) \<and>
   poolMgr (NewHandlerSet opts_pool) \<noteq> None \<and>
   reaches_fork_enter env_ok (new_Handler ''hello'') sb0 \<and> \<not> is_container sb0"
proof -
  have a: "RunStart (NewHandlerSet opts_pool) env_ok (new_Handler ''hello'') =
     (h_created,
      [Pull ''hello'', MkdirAll hello_dir, Create ''/code/hello'' hello_dir, SbState sb0,
       SbStart sb0],
      Returns (None, Some forkenter_error))"
    by (simp add: example_defs)
  have b: "reaches_fork_enter env_ok (new_Handler ''hello'') sb0 \<and> \<not> is_container sb0"
    by (simp add: reaches_fork_enter_def env_ok_def new_Handler_def sb0_def)
  have c: "poolMgr (NewHandlerSet opts_pool) \<noteq> None"
    by (simp add: NewHandlerSet_def opts_pool_def)
  show ?thesis using RunStart_forkenter [OF a] a b c by simp
qed

text \<open>
  The claim C7 as the spec states it fails: with a pool manager configured and a new
  sandbox that is not a container sandbox, a call on the creating branch whose
  \<^verbatim>\<open>Start\<close> fails returns the error of \<^verbatim>\<open>Start\<close>, not the capability error.
\<close>

theorem RunStart_forkenter_counterexample:
  "sandbox (new_Handler ''hello'') = None \<and>
   poolMgr (NewHandlerSet opts_pool) = Some 1 \<and>
   create_out (env_ok\<lparr>start_out := Some ''start failed''\<rparr>) = Inr sb0 \<and>
   \<not> is_container sb0 \<and>
   RunStart (NewHandlerSet opts_pool) (env_ok\<lparr>start_out := Some ''start failed''\<rparr>)
     (new_Handler ''hello'') =
     (h_created,
      [Pull ''hello'', MkdirAll hello_dir, Create ''/code/hello'' hello_dir, SbState sb0,
       SbStart sb0],
      Returns (None, Some (Collaborator ''start failed''))) \<and>
   Collaborator ''start failed'' \<noteq> forkenter_error"
  by (simp add: example_defs)

section \<open>What a run keeps of the fetch and of the registry\<close>

lemma RunStart_keeps_pull:
  "lastPull h = Some t \<Longrightarrow> RunStart hs e h = (h', ev, r) \<Longrightarrow>
   lastPull h' = Some t \<and> codeDir h' = codeDir h \<and> \<not> list_ex is_Pull ev"
  by (auto simp: RunStart_defs split: if_splits option.splits sum.splits prod.splits)

lemma RunFinish_keeps_pull:
  "RunFinish e h = (h', ev, r) \<Longrightarrow> lastPull h' = lastPull h \<and> codeDir h' = codeDir h"
  by (auto simp: RunFinish_def Let_def split: if_splits option.splits)

lemma StopIfPaused_keeps_pull:
  "StopIfPaused e h = (h', ev, r) \<Longrightarrow> lastPull h' = lastPull h \<and> codeDir h' = codeDir h"
  by (auto simp: StopIfPaused_def split: if_splits option.splits)

lemma Get_heap:
  "p < length (heap w) \<Longrightarrow>
   p < length (heap (snd (Get n w))) \<and> heap (snd (Get n w)) ! p = heap w ! p"
  by (auto simp: Get_def Let_def nth_append split: option.splits)

lemma Get_handlers:
  "handlers (hset w) n = Some p \<Longrightarrow> handlers (hset (snd (Get n' w))) n = Some p"
  by (auto simp: Get_def Let_def split: option.splits)

lemma step_keeps_pull:
  assumes "step c (w, pend) = Some (w', pend')" and "p < length (heap w)"
    and "lastPull (heap w ! p) = Some t"
  shows "p < length (heap w') \<and> lastPull (heap w' ! p) = Some t \<and>
         codeDir (heap w' ! p) = codeDir (heap w ! p)"
proof (cases c)
  case (CallGet n)
  then show ?thesis using assms Get_heap [of p w n] by auto
next
  case (CallRunStart q e)
  then show ?thesis
    using assms
    by (auto simp: nth_list_update split: if_splits prod.splits dest: RunStart_keeps_pull)
next
  case (CallRunFinish q e)
  then show ?thesis
    using assms
    by (auto simp: nth_list_update split: if_splits prod.splits dest: RunFinish_keeps_pull)
next
  case (CallStopIfPaused q e)
  then show ?thesis
    using assms
    by (auto simp: nth_list_update split: if_splits prod.splits dest: StopIfPaused_keeps_pull)
qed

lemma run_keeps_pull:
  "run cs (w, pend) = Some (w', pend') \<Longrightarrow> p < length (heap w) \<Longrightarrow>
   lastPull (heap w ! p) = Some t \<Longrightarrow>
   p < length (heap w') \<and> lastPull (heap w' ! p) = Some t \<and>
   codeDir (heap w' ! p) = codeDir (heap w ! p)"
proof (induction cs arbitrary: w pend)
  case Nil
  then show ?case by simp
next
  case (Cons c cs)
  from Cons.prems(1) obtain w1 pend1 where
    s: "step c (w, pend) = Some (w1, pend1)" and r: "run cs (w1, pend1) = Some (w', pend')"
    by (auto split: option.splits)
  from step_keeps_pull [OF s Cons.prems(2,3)] Cons.IH [OF r] show ?case by simp
qed

lemma step_keeps_handlers:
  "step c (w, pend) = Some (w', pend') \<Longrightarrow> handlers (hset w) n = Some p \<Longrightarrow>
   handlers (hset w') n = Some p"
  by (cases c) (auto simp: Get_handlers split: if_splits prod.splits)

lemma run_keeps_handlers:
  "run cs (w, pend) = Some (w', pend') \<Longrightarrow> handlers (hset w) n = Some p \<Longrightarrow>
   handlers (hset w') n = Some p"
proof (induction cs arbitrary: w pend)
  case Nil
  then show ?case by simp
next
  case (Cons c cs)
  from Cons.prems(1) obtain w1 pend1 where
    s: "step c (w, pend) = Some (w1, pend1)" and r: "run cs (w1, pend1) = Some (w', pend')"
    by (auto split: option.splits)
  from Cons.IH [OF r step_keeps_handlers [OF s Cons.prems(2)]] show ?case .
qed

lemma run_to_fresh: "run [CallGet ''hello''] (start opts0) = Some (w_fresh, \<lambda>p. 0)"
  by (simp add: example_defs)

lemma w_fresh_0: "0 < length (heap w_fresh)" "heap w_fresh ! 0 = new_Handler ''hello''"
  "hset w_fresh = NewHandlerSet opts0\<lparr>handlers := [''hello'' \<mapsto> 0]\<rparr>"
  by (simp_all add: w_fresh_def NewHandlerSet_def opts0_def)

text \<open>
  Claim C8. Take a reachable handler whose code has never been fetched (\<^verbatim>\<open>lastPull\<close> is
  nil). If \<^verbatim>\<open>Pull\<close> fails inside \<^verbatim>\<open>RunStart\<close>, \<^verbatim>\<open>RunStart\<close> returns that error after
  this one collaborator call and no field changes: \<^verbatim>\<open>lastPull\<close> and \<^verbatim>\<open>codeDir\<close> are
  still unset, there is no sandbox, the state is \<^verbatim>\<open>Unitialized\<close> and the runner count is
  what it was. If \<^verbatim>\<open>Pull\<close> succeeds, the time and the directory it returned are
  recorded, whatever happens later in the call. Once \<^verbatim>\<open>lastPull\<close> is recorded, after
  any further calls on the registry a \<^verbatim>\<open>RunStart\<close> on that handler does not call
  \<^verbatim>\<open>Pull\<close>, and the recorded time and directory are still the same.
\<close>

theorem RunStart_fetch:
  assumes reach: "run cs (start opts) = Some (w, pend)" and p: "p < length (heap w)"
    and never: "lastPull (heap w ! p) = None"
    and rs: "RunStart (hset w) e (heap w ! p) = (h', ev, r)"
    and later: "run rest (w\<lparr>heap := (heap w)[p := h']\<rparr>, pend') = Some (w2, pend2)"
    and rs2: "RunStart (hset w2) e2 (heap w2 ! p) = (h2, ev2, r2)"
  shows "(\<forall>x. pull_out e = Inl x \<longrightarrow>
            r = Returns (None, Some (Collaborator x)) \<and> ev = [Pull (name (heap w ! p))] \<and>
            h' = heap w ! p \<and> lastPull h' = None \<and> codeDir h' = [] \<and> sandbox h' = None \<and>
            state h' = Unitialized \<and> runners h' = runners (heap w ! p)) \<and>
         (\<forall>dir. pull_out e = Inr dir \<longrightarrow>
            hd ev = Pull (name (heap w ! p)) \<and> lastPull h' = Some (now_out e) \<and>
            codeDir h' = dir) \<and>
         (lastPull h' \<noteq> None \<longrightarrow>
            \<not> list_ex is_Pull ev2 \<and> lastPull h2 = lastPull h' \<and> codeDir h2 = codeDir h')"
proof -
  have hi: "handler_wf (heap w ! p)" by (rule reachable_wf [OF reach p])
  have a: "\<forall>x. pull_out e = Inl x \<longrightarrow>
            r = Returns (None, Some (Collaborator x)) \<and> ev = [Pull (name (heap w ! p))] \<and>
            h' = heap w ! p \<and> lastPull h' = None \<and> codeDir h' = [] \<and> sandbox h' = None \<and>
            state h' = Unitialized \<and> runners h' = runners (heap w ! p)"
    using hi never rs by (auto simp: RunStart_def get_code_def handler_wf_def)
  have b: "\<forall>dir. pull_out e = Inr dir \<longrightarrow>
            hd ev = Pull (name (heap w ! p)) \<and> lastPull h' = Some (now_out e) \<and>
            codeDir h' = dir"
    using never rs
    by (auto simp: RunStart_defs split: if_splits option.splits sum.splits prod.splits)
  have c: "\<not> list_ex is_Pull ev2 \<and> lastPull h2 = lastPull h' \<and> codeDir h2 = codeDir h'"
    if "lastPull h' \<noteq> None"
  proof -
    from that obtain t where t: "lastPull h' = Some t" by auto
    have q: "p < length (heap (w\<lparr>heap := (heap w)[p := h']\<rparr>))" using p by simp
    have l: "lastPull (heap (w\<lparr>heap := (heap w)[p := h']\<rparr>) ! p) = Some t" using p t by simp
    have k: "lastPull (heap w2 ! p) = Some t \<and> codeDir (heap w2 ! p) = codeDir h'"
      using run_keeps_pull [OF later q l] p by simp
    show ?thesis using RunStart_keeps_pull [OF _ rs2, of t] k t by simp
  qed
  from a b c show ?thesis by blast
qed

theorem RunStart_fetch_witness:
  "run [CallGet ''hello''] (start opts0) = Some (w_fresh, \<lambda>p. 0) \<and>
   0 < length (heap w_fresh) \<and> lastPull (heap w_fresh ! 0) = None \<and>
   RunStart (hset w_fresh) env_ok (heap w_fresh ! 0) =
     (h_running,
      [Pull ''hello'', MkdirAll hello_dir, Create ''/code/hello'' hello_dir, SbState sb0,
       SbStart sb0, SbChannel sb0],
      Returns (Some 3, None)) \<and>
   run [CallRunFinish 0 env_ok] (w_fresh\<lparr>heap := (heap w_fresh)[0 := h_running]\<rparr>,
     (\<lambda>p. 0)(0 := Suc 0)) = Some (w_paused, (\<lambda>p. 0)(0 := Suc 0, 0 := Suc 0 - 1)) \<and>
   RunStart (hset w_paused) env_ok (heap w_paused ! 0) =
     (h_running, [SbUnpause sb0, LruRemove ''hello'', SbChannel sb0], Returns (Some 3, None)) \<and>
   lastPull h_running = Some 7 \<and> codeDir h_running = ''/code/hello'' \<and>
   \<not> list_ex is_Pull [SbUnpause sb0, LruRemove ''hello'', SbChannel sb0]"
proof -
  have n: "lastPull (heap w_fresh ! 0) = None" by (simp add: w_fresh_0 new_Handler_def)
  have a: "RunStart (hset w_fresh) env_ok (heap w_fresh ! 0) =
     (h_running,
      [Pull ''hello'', MkdirAll hello_dir, Create ''/code/hello'' hello_dir, SbState sb0,
       SbStart sb0, SbChannel sb0],
      Returns (Some 3, None))"
    by (simp add: w_fresh_0 example_defs)
  have b: "run [CallRunFinish 0 env_ok] (w_fresh\<lparr>heap := (heap w_fresh)[0 := h_running]\<rparr>,
     (\<lambda>p. 0)(0 := Suc 0)) = Some (w_paused, (\<lambda>p. 0)(0 := Suc 0, 0 := Suc 0 - 1))"
    by (simp add: example_defs)
  have c: "RunStart (hset w_paused) env_ok (heap w_paused ! 0) =
     (h_running, [SbUnpause sb0, LruRemove ''hello'', SbChannel sb0], Returns (Some 3, None))"
    by (simp add: w_paused_0 RunStart_defs h_paused_def h_running_def env_ok_def)
  show ?thesis
    using RunStart_fetch [OF run_to_fresh w_fresh_0(1) n a b c] run_to_fresh w_fresh_0(1) n a b c
    by (simp add: h_running_def)
qed

text \<open>
  Claim C3. On a registry reached by any calls, let \<^verbatim>\<open>Get\<close> of a name return a pointer.
  After any further calls (of \<^verbatim>\<open>Get\<close> with any names and of the methods of any
  handlers), \<^verbatim>\<open>Get\<close> of that name returns the same pointer and creates nothing; the
  handler behind it carries that name and no other handler of the registry does, so
  exactly one instance exists for the name. If the name was not registered, the first
  \<^verbatim>\<open>Get\<close> allocated the pointer and the new handler is in state \<^verbatim>\<open>Unitialized\<close> with
  runner count 0; if it was, \<^verbatim>\<open>Get\<close> changed nothing. A \<^verbatim>\<open>Get\<close> of any name leaves the
  handler behind the pointer as it is.
\<close>

theorem Get_same_instance:
  assumes pre: "run pre (start opts) = Some (w0, pend0)"
    and get: "Get n w0 = (p, w1)"
    and mid: "run mid (w1, pend0) = Some (w2, pend2)"
  shows "Get n w2 = (p, w2) \<and> p < length (heap w2) \<and> name (heap w2 ! p) = n \<and>
         (\<forall>q < length (heap w2). name (heap w2 ! q) = n \<longrightarrow> q = p) \<and>
         (handlers (hset w0) n = None \<longrightarrow>
            p = length (heap w0) \<and> heap w1 ! p = new_Handler n \<and>
            state (heap w1 ! p) = Unitialized \<and> runners (heap w1 ! p) = 0) \<and>
         (handlers (hset w0) n \<noteq> None \<longrightarrow> w1 = w0) \<and>
         (\<forall>n'. heap (snd (Get n' w2)) ! p = heap w2 ! p)"
proof -
  have i0: "world_inv (w0, pend0)" by (rule run_inv [OF world_inv_start pre])
  have i1: "world_inv (w1, pend0)" using Get_inv [OF i0, of n] get by simp
  have h1: "handlers (hset w1) n = Some p"
    using get by (auto simp: Get_def Let_def split: option.splits)
  have h2: "handlers (hset w2) n = Some p" by (rule run_keeps_handlers [OF mid h1])
  have i2: "world_inv (w2, pend2)" by (rule run_inv [OF i1 mid])
  have a: "Get n w2 = (p, w2)" using h2 by (simp add: Get_def)
  have b: "p < length (heap w2) \<and> name (heap w2 ! p) = n"
    using i2 h2 by (simp add: world_inv_def)
  have c: "\<forall>q < length (heap w2). name (heap w2 ! q) = n \<longrightarrow> q = p"
    using i2 h2 by (auto simp: world_inv_def)
  have d: "handlers (hset w0) n = None \<longrightarrow>
            p = length (heap w0) \<and> heap w1 ! p = new_Handler n \<and>
            state (heap w1 ! p) = Unitialized \<and> runners (heap w1 ! p) = 0"
    using get by (auto simp: Get_def Let_def new_Handler_def)
  have e: "handlers (hset w0) n \<noteq> None \<longrightarrow> w1 = w0"
    using get by (auto simp: Get_def)
  have f: "\<forall>n'. heap (snd (Get n' w2)) ! p = heap w2 ! p"
    using b Get_heap [of p w2] by simp
  from a b c d e f show ?thesis by blast
qed

theorem Get_same_instance_witness:
  "run [] (start opts0) = Some (new_world opts0, \<lambda>p. 0) \<and>
   Get ''hello'' (new_world opts0) = (0, w_fresh) \<and>
   run [CallRunStart 0 env_ok, CallRunFinish 0 env_ok] (w_fresh, \<lambda>p. 0) =
     Some (w_paused, (\<lambda>p. 0)(0 := Suc 0, 0 := Suc 0 - 1)) \<and>
   Get ''hello'' w_paused = (0, w_paused) \<and> name (heap w_paused ! 0) = ''hello'' \<and>
   heap w_fresh ! 0 = new_Handler ''hello'' \<and>
   heap (snd (Get ''other'' w_paused)) ! 0 = heap w_paused ! 0"
proof -
  have a: "run [] (start opts0) = Some (new_world opts0, \<lambda>p. 0)" by (simp add: start_def)
  have b: "Get ''hello'' (new_world opts0) = (0, w_fresh)" by (simp add: example_defs)
  have c: "run [CallRunStart 0 env_ok, CallRunFinish 0 env_ok] (w_fresh, \<lambda>p. 0) =
     Some (w_paused, (\<lambda>p. 0)(0 := Suc 0, 0 := Suc 0 - 1))"
    by (simp add: example_defs)
  have d: "handlers (hset (new_world opts0)) ''hello'' = None"
    by (simp add: new_world_def NewHandlerSet_def)
  show ?thesis using Get_same_instance [OF a b c] a b c d by simp
qed

section \<open>The runner count along a run\<close>

lemma handler_inv_less: "handler_inv h (Suc k) \<Longrightarrow> handler_inv h k"
  by (simp add: handler_inv_def)

lemma RunStart_runners:
  "RunStart hs e h = (h', ev, r) \<Longrightarrow>
   runners h' = runners h + (if list_ex is_SbChannel ev then 1 else 0)"
  by (auto simp: RunStart_defs split: if_splits option.splits sum.splits prod.splits)

lemma succeeded_reaches:
  "RunStart hs e h = (h', ev, r) \<Longrightarrow> succeeded r \<Longrightarrow> list_ex is_SbChannel ev"
  by (auto simp: RunStart_defs succeeded_def
      split: if_splits option.splits sum.splits prod.splits)

lemma RunStart_reached:
  "RunStart hs e h = (h', ev, r) \<Longrightarrow> list_ex is_SbChannel ev \<Longrightarrow>
   state h' = Running \<and> sandbox h' \<noteq> None"
  by (auto simp: RunStart_defs split: if_splits option.splits sum.splits prod.splits)

lemma RunStart_not_reached:
  "RunStart hs e h = (h', ev, r) \<Longrightarrow> \<not> list_ex is_SbChannel ev \<Longrightarrow>
   runners h' = runners h \<and> (sandbox h' = None \<longrightarrow> sandbox h = None) \<and>
   (sandbox h \<noteq> None \<longrightarrow> state h' = state h)"
  by (auto simp: RunStart_defs split: if_splits option.splits sum.splits prod.splits)

lemma RunStart_count:
  assumes hi: "handler_inv h k" and b: "sint (runners h) < 2 ^ 63 - 1"
    and rs: "RunStart hs e h = (h', ev, r)"
  shows "handler_inv h' (if list_ex is_SbChannel ev then Suc k else k) \<and>
         sint (runners h') \<le> sint (runners h) + 1"
proof (cases "list_ex is_SbChannel ev")
  case True
  have r: "runners h' = runners h + 1" using RunStart_runners [OF rs] True by simp
  have s: "sint (runners h') = sint (runners h) + 1" using r sint_plus_one [OF b] by simp
  show ?thesis
    using True hi s RunStart_reached [OF rs True] by (auto simp: handler_inv_def)
next
  case False
  have r: "runners h' = runners h" using RunStart_runners [OF rs] False by simp
  show ?thesis
  proof (cases "sandbox h")
    case None
    then have "runners h = 0" using hi by (simp add: handler_inv_def)
    then show ?thesis using False hi r by (auto simp: handler_inv_def)
  next
    case (Some s)
    then have "state h' = state h \<and> sandbox h' \<noteq> None"
      using RunStart_not_reached [OF rs False] by auto
    then show ?thesis using False hi r by (auto simp: handler_inv_def)
  qed
qed

lemma RunFinish_runners: "RunFinish e h = (h', ev, r) \<Longrightarrow> runners h' = runners h - 1"
  by (auto simp: RunFinish_def Let_def split: if_splits option.splits)

lemma RunFinish_state:
  "RunFinish e h = (h', ev, r) \<Longrightarrow> sandbox h \<noteq> None \<Longrightarrow>
   sandbox h' = sandbox h \<and>
   (if runners h - 1 = 0 then state h' = Paused else state h' = state h)"
  by (auto simp: RunFinish_def Let_def split: if_splits option.splits)

lemma RunFinish_count:
  assumes hi: "handler_inv h k" and k: "0 < k" and rf: "RunFinish e h = (h', ev, r)"
  shows "handler_inv h' (k - 1) \<and> sint (runners h') \<le> sint (runners h) \<and>
         (state h' = Running \<longrightarrow> 1 \<le> sint (runners h'))"
proof -
  have pos: "1 \<le> sint (runners h)" using hi k by (simp add: handler_inv_def)
  have s: "sint (runners h') = sint (runners h) - 1"
    using RunFinish_runners [OF rf] sint_minus_one [of "runners h"] pos by simp
  have sb: "sandbox h \<noteq> None"
  proof
    assume "sandbox h = None"
    then have "runners h = 0" using hi by (simp add: handler_inv_def)
    with pos show False by simp
  qed
  have z: "(runners h - 1 = 0) = (sint (runners h') = 0)"
    using RunFinish_runners [OF rf] by (simp add: signed_eq_0_iff)
  have run: "state h = Running" using hi pos by (simp add: handler_inv_def)
  show ?thesis
    using RunFinish_state [OF rf sb] hi k s z sb run pos
    by (auto simp: handler_inv_def split: if_splits)
qed

lemma StopIfPaused_count:
  "handler_inv h k \<Longrightarrow> StopIfPaused e h = (h', ev, r) \<Longrightarrow>
   handler_inv h' k \<and> runners h' = runners h"
  by (auto simp: StopIfPaused_def handler_inv_def split: if_splits option.splits)

lemma runners_new_Handler: "runners (new_Handler n) = 0"
  by (simp add: new_Handler_def)

lemma count_start: "count_inv 0 (start opts)"
  by (simp add: count_inv_def start_def new_world_def)

lemma count_Get: "count_inv n (w, pend) \<Longrightarrow> count_inv n (snd (Get m w), pend)"
  by (auto simp: count_inv_def Get_def Let_def nth_append handler_inv_new runners_new_Handler
      split: option.splits)

lemma count_update:
  assumes ci: "count_inv n (w, pend)" and p: "p < length (heap w)"
    and hi: "handler_inv h' k" and b: "sint (runners h') \<le> int n'" and le: "n \<le> n'"
  shows "count_inv n' (w\<lparr>heap := (heap w)[p := h']\<rparr>, pend(p := k))"
proof -
  have le': "int n \<le> int n'" using le by simp
  show ?thesis
    using ci p hi b le' by (auto simp: count_inv_def nth_list_update)
qed

lemma count_step:
  assumes ci: "count_inv n s" and b: "Suc n < 2 ^ 63" and st: "step c s = Some s'"
  shows "count_inv (Suc n) s'"
proof (cases s)
  case (Pair w pend)
  have hi: "handler_inv (heap w ! p) (pend p) \<and> sint (runners (heap w ! p)) \<le> int n"
    if "p < length (heap w)" for p
    using ci Pair that by (simp add: count_inv_def)
  note ci' = ci [unfolded Pair]
  show ?thesis
  proof (cases c)
    case (CallGet m)
    have "count_inv (Suc n) (snd (Get m w), pend)"
      using count_Get [OF ci', of m] by (auto simp: count_inv_def)
    then show ?thesis using st Pair CallGet by simp
  next
    case (CallRunStart p e)
    with st Pair have p: "p < length (heap w)" by (auto split: if_splits)
    obtain h' ev r where rs: "RunStart (hset w) e (heap w ! p) = (h', ev, r)"
      by (cases "RunStart (hset w) e (heap w ! p)") auto
    have bb: "sint (runners (heap w ! p)) < 2 ^ 63 - 1"
      using hi [OF p] nat_bound [OF b] by simp
    note c = RunStart_count [OF conjunct1 [OF hi [OF p]] bb rs]
    have h1: "handler_inv h' (if succeeded r then Suc (pend p) else pend p)"
      using c succeeded_reaches [OF rs] handler_inv_less by (auto split: if_splits)
    have h2: "sint (runners h') \<le> int (Suc n)" using c hi [OF p] by simp
    have "s' = (w\<lparr>heap := (heap w)[p := h']\<rparr>,
            pend(p := (if succeeded r then Suc (pend p) else pend p)))"
      using st Pair CallRunStart p rs by (auto simp: fun_upd_idem)
    then show ?thesis using count_update [OF ci' p h1 h2] by simp
  next
    case (CallRunFinish p e)
    with st Pair have p: "p < length (heap w)" and k: "0 < pend p" by (auto split: if_splits)
    obtain h' ev r where rf: "RunFinish e (heap w ! p) = (h', ev, r)"
      by (cases "RunFinish e (heap w ! p)") auto
    note c = RunFinish_count [OF conjunct1 [OF hi [OF p]] k rf]
    have h2: "sint (runners h') \<le> int (Suc n)" using c hi [OF p] by simp
    have "s' = (w\<lparr>heap := (heap w)[p := h']\<rparr>, pend(p := pend p - 1))"
      using st Pair CallRunFinish p k rf by auto
    then show ?thesis using count_update [OF ci' p conjunct1 [OF c] h2] by simp
  next
    case (CallStopIfPaused p e)
    with st Pair have p: "p < length (heap w)" by (auto split: if_splits)
    obtain h' ev r where sp: "StopIfPaused e (heap w ! p) = (h', ev, r)"
      by (cases "StopIfPaused e (heap w ! p)") auto
    note c = StopIfPaused_count [OF conjunct1 [OF hi [OF p]] sp]
    have h2: "sint (runners h') \<le> int (Suc n)" using c hi [OF p] by simp
    have "s' = (w\<lparr>heap := (heap w)[p := h']\<rparr>, pend(p := pend p))"
      using st Pair CallStopIfPaused p sp by auto
    then show ?thesis using count_update [OF ci' p conjunct1 [OF c] h2] by simp
  qed
qed

lemma count_run:
  "count_inv n s \<Longrightarrow> n + length cs < 2 ^ 63 \<Longrightarrow> run cs s = Some s' \<Longrightarrow>
   count_inv (n + length cs) s'"
proof (induction cs arbitrary: s n)
  case Nil
  then show ?case by simp
next
  case (Cons c cs)
  from Cons.prems(3) obtain s1 where
    s: "step c s = Some s1" and r: "run cs s1 = Some s'"
    by (auto split: option.splits)
  have b: "Suc n < 2 ^ 63" using Cons.prems(2) by simp
  have c1: "count_inv (Suc n) s1" by (rule count_step [OF Cons.prems(1) b s])
  have "count_inv (Suc n + length cs) s'"
    using Cons.IH [OF c1 _ r] Cons.prems(2) by simp
  then show ?case by simp
qed

lemma step_length:
  "step c (w, pend) = Some (w', pend') \<Longrightarrow> p < length (heap w) \<Longrightarrow> p < length (heap w')"
  by (cases c) (auto simp: Get_def Let_def split: if_splits prod.splits option.splits)

lemma run_length:
  "run cs (w, pend) = Some (w', pend') \<Longrightarrow> p < length (heap w) \<Longrightarrow> p < length (heap w')"
proof (induction cs arbitrary: w pend)
  case Nil
  then show ?case by simp
next
  case (Cons c cs)
  from Cons.prems(1) obtain w1 pend1 where
    s: "step c (w, pend) = Some (w1, pend1)" and r: "run cs (w1, pend1) = Some (w', pend')"
    by (auto split: option.splits)
  from Cons.IH [OF r step_length [OF s Cons.prems(2)]] show ?case .
qed

lemma step_more_pending:
  "step c (w, pend) = Some (w', pend') \<Longrightarrow>
   step c (w, pend(p := Suc (pend p))) = Some (w', pend'(p := Suc (pend' p)))"
  by (cases c) (auto split: if_splits prod.splits)

lemma run_more_pending:
  "run cs (w, pend) = Some (w', pend') \<Longrightarrow>
   run cs (w, pend(p := Suc (pend p))) = Some (w', pend'(p := Suc (pend' p)))"
proof (induction cs arbitrary: w pend)
  case Nil
  then show ?case by simp
next
  case (Cons c cs)
  from Cons.prems(1) obtain w1 pend1 where
    s: "step c (w, pend) = Some (w1, pend1)" and r: "run cs (w1, pend1) = Some (w', pend')"
    by (auto split: option.splits)
  have s2: "step c (w, pend(p := Suc (pend p))) = Some (w1, pend1(p := Suc (pend1 p)))"
    by (rule step_more_pending [OF s])
  have r2: "run cs (w1, pend1(p := Suc (pend1 p))) = Some (w', pend'(p := Suc (pend' p)))"
    by (rule Cons.IH [OF r])
  show ?case by (simp only: run.simps s2 option.case r2)
qed

lemma step_excess:
  assumes st: "step c (w, pend) = Some (w', pend')" and p: "p < length (heap w)"
  shows "excess (heap w' ! p) (pend' p) =
           excess (heap w ! p) (pend p) + of_nat (leaks p [c] (w, pend))"
proof (cases c)
  case (CallGet m)
  then show ?thesis
    using st p by (auto simp: Get_def Let_def nth_append split: option.splits)
next
  case (CallRunStart q e)
  with st have q: "q < length (heap w)" by (auto split: if_splits)
  obtain h' ev r where rs: "RunStart (hset w) e (heap w ! q) = (h', ev, r)"
    by (cases "RunStart (hset w) e (heap w ! q)") auto
  have w': "w' = w\<lparr>heap := (heap w)[q := h']\<rparr>"
    and pend': "pend' = (if succeeded r then pend(q := Suc (pend q)) else pend)"
    using st CallRunStart q rs by auto
  show ?thesis
  proof (cases "q = p")
    case True
    show ?thesis
      using True w' pend' p rs RunStart_runners [OF rs] succeeded_reaches [OF rs] st
        CallRunStart
      by (auto simp: excess_def leaks_runner_def)
  next
    case False
    then show ?thesis using w' pend' p st CallRunStart by auto
  qed
next
  case (CallRunFinish q e)
  with st have q: "q < length (heap w)" and k: "0 < pend q" by (auto split: if_splits)
  obtain h' ev r where rf: "RunFinish e (heap w ! q) = (h', ev, r)"
    by (cases "RunFinish e (heap w ! q)") auto
  have w': "w' = w\<lparr>heap := (heap w)[q := h']\<rparr>" and pend': "pend' = pend(q := pend q - 1)"
    using st CallRunFinish q k rf by auto
  have o: "(of_nat (pend q - 1) :: 64 word) = of_nat (pend q) - 1"
    using k by (simp add: of_nat_diff)
  show ?thesis
    using w' pend' p RunFinish_runners [OF rf] o st CallRunFinish
    by (cases "q = p") (auto simp: excess_def)
next
  case (CallStopIfPaused q e)
  with st have q: "q < length (heap w)" by (auto split: if_splits)
  obtain h' ev r where sp: "StopIfPaused e (heap w ! q) = (h', ev, r)"
    by (cases "StopIfPaused e (heap w ! q)") auto
  have w': "w' = w\<lparr>heap := (heap w)[q := h']\<rparr>" and pend': "pend' = pend"
    using st CallStopIfPaused q sp by auto
  have "runners h' = runners (heap w ! q)"
    using sp by (auto simp: StopIfPaused_def split: if_splits option.splits)
  then show ?thesis
    using w' pend' p st CallStopIfPaused by (cases "q = p") (auto simp: excess_def)
qed

lemma run_excess:
  "run cs (w, pend) = Some (w', pend') \<Longrightarrow> p < length (heap w) \<Longrightarrow>
   excess (heap w' ! p) (pend' p) =
     excess (heap w ! p) (pend p) + of_nat (leaks p cs (w, pend))"
proof (induction cs arbitrary: w pend)
  case Nil
  then show ?case by simp
next
  case (Cons c cs)
  from Cons.prems(1) obtain w1 pend1 where
    s: "step c (w, pend) = Some (w1, pend1)" and r: "run cs (w1, pend1) = Some (w', pend')"
    by (auto split: option.splits)
  have l: "leaks p (c # cs) (w, pend) = leaks p [c] (w, pend) + leaks p cs (w1, pend1)"
    using s by simp
  show ?case
    using Cons.IH [OF r step_length [OF s Cons.prems(2)]] step_excess [OF s Cons.prems(2)] l
    by (simp add: algebra_simps)
qed

text \<open>
  Claim C10. When \<^verbatim>\<open>RunStart\<close> gets as far as asking the sandbox for its channel and
  \<^verbatim>\<open>Channel()\<close> fails, \<^verbatim>\<open>RunStart\<close> returns that error, yet the state has already been
  set to \<^verbatim>\<open>Running\<close> and the runner count has already been incremented by one. The call
  did not succeed, so no \<^verbatim>\<open>RunFinish\<close> is owed for it, and the increment is never
  balanced: when the call is made on a reachable handler and any calls follow it, the
  excess of the runner count over the invocations in flight has grown by one with the
  failed call and afterwards only grows, by one with every further such failure. As
  long as the count has not wrapped around (fewer than \<open>2 ^ 63\<close> calls in all) the
  runner count therefore stays above the number of invocations in flight, and the
  handler stays in state \<^verbatim>\<open>Running\<close>: it is never paused again.
\<close>

theorem RunStart_channel_failure:
  assumes rs: "RunStart hs e h = (h', ev, r)"
    and ch: "list_ex is_SbChannel ev"
    and fail: "snd (channel_out e) = Some x"
  shows "r = Returns (fst (channel_out e), Some (Collaborator x)) \<and> \<not> succeeded r \<and>
         state h' = Running \<and> runners h' = runners h + 1 \<and>
         (run cs (start opts) = Some (w, pend) \<and> p < length (heap w) \<and> heap w ! p = h \<and>
          hset w = hs \<and> run (CallRunStart p e # rest) (w, pend) = Some (w_end, pend_end) \<longrightarrow>
            excess h' (pend p) = excess h (pend p) + 1 \<and>
            excess (heap w_end ! p) (pend_end p) =
              excess h' (pend p) +
              of_nat (leaks p rest (w\<lparr>heap := (heap w)[p := h']\<rparr>, pend)) \<and>
            (length cs + Suc (length rest) < 2 ^ 63 \<longrightarrow>
               int (pend_end p) + 1 \<le> sint (runners (heap w_end ! p)) \<and>
               state (heap w_end ! p) = Running))"
proof -
  have one: "r = Returns (fst (channel_out e), Some (Collaborator x)) \<and> \<not> succeeded r \<and>
         state h' = Running \<and> runners h' = runners h + 1"
    using assms
    by (auto simp: RunStart_defs succeeded_def
        split: if_splits option.splits sum.splits prod.splits)
  have later: "excess h' (pend p) = excess h (pend p) + 1 \<and>
            excess (heap w_end ! p) (pend_end p) =
              excess h' (pend p) +
              of_nat (leaks p rest (w\<lparr>heap := (heap w)[p := h']\<rparr>, pend)) \<and>
            (length cs + Suc (length rest) < 2 ^ 63 \<longrightarrow>
               int (pend_end p) + 1 \<le> sint (runners (heap w_end ! p)) \<and>
               state (heap w_end ! p) = Running)"
    if reach: "run cs (start opts) = Some (w, pend)" and p: "p < length (heap w)"
      and h: "heap w ! p = h" and hs: "hset w = hs"
      and cont: "run (CallRunStart p e # rest) (w, pend) = Some (w_end, pend_end)"
  proof -
    let ?w1 = "w\<lparr>heap := (heap w)[p := h']\<rparr>"
    have ns: "\<not> succeeded r" using one by blast
    have st: "step (CallRunStart p e) (w, pend) = Some (?w1, pend)"
      using p h hs rs ns by simp
    have r2: "run rest (?w1, pend) = Some (w_end, pend_end)" using cont st by simp
    have p1: "p < length (heap ?w1)" and h1: "heap ?w1 ! p = h'" using p by simp_all
    have e1: "excess h' (pend p) = excess h (pend p) + 1"
      using one by (simp add: excess_def)
    have e2: "excess (heap w_end ! p) (pend_end p) =
                excess h' (pend p) + of_nat (leaks p rest (?w1, pend))"
      using run_excess [OF r2 p1] h1 by simp
    have e3: "int (pend_end p) + 1 \<le> sint (runners (heap w_end ! p)) \<and>
              state (heap w_end ! p) = Running"
      if b: "length cs + Suc (length rest) < 2 ^ 63"
    proof -
      have b0: "0 + length cs < (2::nat) ^ 63" using b by simp
      have c0: "count_inv (length cs) (w, pend)"
        using count_run [OF count_start b0 reach] by simp
      have hi: "handler_inv h (pend p)" and le: "sint (runners h) \<le> int (length cs)"
        using c0 p h by (auto simp: count_inv_def)
      have bb: "sint (runners h) < 2 ^ 63 - 1"
        using le nat_bound [of "length cs"] b by simp
      have hi': "handler_inv h' (Suc (pend p))"
        and le': "sint (runners h') \<le> int (Suc (length cs))"
        using RunStart_count [OF hi bb rs] ch le by simp_all
      have c1: "count_inv (Suc (length cs)) (?w1, pend(p := Suc (pend p)))"
        by (rule count_update [OF c0 p hi' le']) simp
      have m: "run rest (?w1, pend(p := Suc (pend p))) =
                 Some (w_end, pend_end(p := Suc (pend_end p)))"
        by (rule run_more_pending [OF r2])
      have b1: "Suc (length cs) + length rest < (2::nat) ^ 63" using b by simp
      have c2: "count_inv (Suc (length cs) + length rest)
                  (w_end, pend_end(p := Suc (pend_end p)))"
        by (rule count_run [OF c1 b1 m])
      have p2: "p < length (heap w_end)" by (rule run_length [OF r2 p1])
      have "handler_inv (heap w_end ! p) (Suc (pend_end p))"
        using c2 p2 by (auto simp: count_inv_def)
      then show ?thesis by (auto simp: handler_inv_def)
    qed
    from e1 e2 e3 show ?thesis by blast
  qed
  from one later show ?thesis by blast
qed

theorem RunStart_channel_failure_witness:
  "RunStart (hset w_paused) env_nochan (heap w_paused ! 0) =
     (h_running, [SbUnpause sb0, LruRemove ''hello'', SbChannel sb0],
      Returns (None, Some (Collaborator ''no channel''))) \<and>
   list_ex is_SbChannel [SbUnpause sb0, LruRemove ''hello'', SbChannel sb0] \<and>
   snd (channel_out env_nochan) = Some ''no channel'' \<and>
   run [CallGet ''hello'', CallRunStart 0 env_ok, CallRunFinish 0 env_ok] (start opts0) =
     Some (w_paused, (\<lambda>p. 0)(0 := Suc 0, 0 := Suc 0 - 1)) \<and>
   run (CallRunStart 0 env_nochan # [CallRunStart 0 env_ok, CallRunFinish 0 env_ok])
     (w_paused, (\<lambda>p. 0)(0 := Suc 0, 0 := Suc 0 - 1)) =
     Some (w_count 1, (\<lambda>p. 0)(0 := 0)) \<and>
   runners h_running = runners h_paused + 1 \<and>
   state (heap (w_count 1) ! 0) = Running \<and>
   int (((\<lambda>p. 0)(0 := 0)) (0::nat)) + 1 \<le> sint (runners (heap (w_count 1) ! 0))"
proof -
  have a: "RunStart (hset w_paused) env_nochan (heap w_paused ! 0) =
     (h_running, [SbUnpause sb0, LruRemove ''hello'', SbChannel sb0],
      Returns (None, Some (Collaborator ''no channel'')))"
    by (simp add: w_paused_0 RunStart_defs h_paused_def h_running_def env_ok_def
        env_nochan_def)
  have b: "list_ex is_SbChannel [SbUnpause sb0, LruRemove ''hello'', SbChannel sb0]" by simp
  have c: "snd (channel_out env_nochan) = Some ''no channel''"
    by (simp add: env_nochan_def)
  have d: "run (CallRunStart 0 env_nochan # [CallRunStart 0 env_ok, CallRunFinish 0 env_ok])
     (w_paused, (\<lambda>p. 0)(0 := Suc 0, 0 := Suc 0 - 1)) =
     Some (w_count 1, (\<lambda>p. 0)(0 := 0))"
    by (simp add: example_defs)
  have l: "length [CallGet ''hello'', CallRunStart 0 env_ok, CallRunFinish 0 env_ok] +
             Suc (length [CallRunStart 0 env_ok, CallRunFinish 0 env_ok]) < (2::nat) ^ 63"
    by simp
  show ?thesis
    using RunStart_channel_failure [OF a b c,
        where cs = "[CallGet ''hello'', CallRunStart 0 env_ok, CallRunFinish 0 env_ok]"
          and opts = opts0 and w = w_paused
          and pend = "(\<lambda>p. 0)(0 := Suc 0, 0 := Suc 0 - 1)" and p = 0
          and rest = "[CallRunStart 0 env_ok, CallRunFinish 0 env_ok]"
          and w_end = "w_count 1" and pend_end = "(\<lambda>p. 0)(0 := 0)"]
      a b c d l run_to_paused w_paused_0(1)
    by (simp add: h_running_def h_paused_def)
qed

section \<open>The invariant of the runner count\<close>

lemma RunStart_recovers:
  assumes wf: "handler_wf h" and hi: "handler_inv h k"
    and b: "sint (runners h) < 2 ^ 63 - 1"
    and na: "\<not> aborts_Running hs e h" and rs: "RunStart hs e h = (h', ev, r)"
  shows "state h' = Running \<longrightarrow> 1 \<le> sint (runners h')"
proof (cases "list_ex is_SbChannel ev")
  case True
  have "sint (runners h') = sint (runners h) + 1"
    using RunStart_runners [OF rs] True sint_plus_one [OF b] by simp
  moreover have "0 \<le> sint (runners h)" using hi by (simp add: handler_inv_def)
  ultimately show ?thesis by simp
next
  case False
  have "state h' \<noteq> Running"
    using False wf na rs
    by (auto simp: RunStart_defs handler_wf_def aborts_Running_def
        split: if_splits option.splits sum.splits prod.splits)
  then show ?thesis by simp
qed

lemma StopIfPaused_counted:
  "(state h = Running \<longrightarrow> 1 \<le> sint (runners h)) \<Longrightarrow> StopIfPaused e h = (h', ev, r) \<Longrightarrow>
   (state h' = Running \<longrightarrow> 1 \<le> sint (runners h'))"
  by (auto simp: StopIfPaused_def split: if_splits option.splits)

lemma counted_update:
  assumes "counted_unless b w p" and "q < length (heap w)"
    and "q = p \<Longrightarrow> \<not> b' \<Longrightarrow> state h' = Running \<Longrightarrow> 1 \<le> sint (runners h')"
    and "q \<noteq> p \<Longrightarrow> b' = b"
  shows "counted_unless b' (w\<lparr>heap := (heap w)[q := h']\<rparr>) p"
  using assms by (cases "q = p") (auto simp: counted_unless_def)

lemma step_counted:
  assumes wi: "world_inv (w, pend)" and ci: "count_inv n (w, pend)"
    and b: "Suc n < 2 ^ 63" and st: "step c (w, pend) = Some (w', pend')"
    and cu: "counted_unless b0 w p"
  shows "counted_unless
           (case c of
              CallRunStart q e \<Rightarrow> if q = p then aborts_Running (hset w) e (heap w ! p) else b0
            | _ \<Rightarrow> b0) w' p"
proof (cases c)
  case (CallGet m)
  have w': "w' = snd (Get m w)" using st CallGet by simp
  show ?thesis
  proof (cases "p < length (heap w)")
    case True
    then show ?thesis
      using cu Get_heap [OF True, of m] w' CallGet by (simp add: counted_unless_def)
  next
    case False
    then have "p < length (heap w') \<longrightarrow> state (heap w' ! p) = Unitialized"
      using w'
      by (auto simp: Get_def Let_def nth_append new_Handler_def less_Suc_eq
          split: option.splits)
    then show ?thesis using CallGet by (simp add: counted_unless_def)
  qed
next
  case (CallRunStart q e)
  with st have q: "q < length (heap w)" by (auto split: if_splits)
  obtain h' ev r where rs: "RunStart (hset w) e (heap w ! q) = (h', ev, r)"
    by (cases "RunStart (hset w) e (heap w ! q)") auto
  have w': "w' = w\<lparr>heap := (heap w)[q := h']\<rparr>" using st CallRunStart q rs by auto
  have wf: "handler_wf (heap w ! q)" using wi q by (auto simp: world_inv_def)
  have hi: "handler_inv (heap w ! q) (pend q)" and le: "sint (runners (heap w ! q)) \<le> int n"
    using ci q by (auto simp: count_inv_def)
  have bb: "sint (runners (heap w ! q)) < 2 ^ 63 - 1" using le nat_bound [OF b] by simp
  show ?thesis
    unfolding w' CallRunStart
    by (rule counted_update [OF cu q]) (use RunStart_recovers [OF wf hi bb _ rs] in auto)
next
  case (CallRunFinish q e)
  with st have q: "q < length (heap w)" and k: "0 < pend q" by (auto split: if_splits)
  obtain h' ev r where rf: "RunFinish e (heap w ! q) = (h', ev, r)"
    by (cases "RunFinish e (heap w ! q)") auto
  have w': "w' = w\<lparr>heap := (heap w)[q := h']\<rparr>" using st CallRunFinish q k rf by auto
  have hi: "handler_inv (heap w ! q) (pend q)" using ci q by (auto simp: count_inv_def)
  show ?thesis
    unfolding w' CallRunFinish
    by (rule counted_update [OF cu q]) (use RunFinish_count [OF hi k rf] in auto)
next
  case (CallStopIfPaused q e)
  with st have q: "q < length (heap w)" by (auto split: if_splits)
  obtain h' ev r where sp: "StopIfPaused e (heap w ! q) = (h', ev, r)"
    by (cases "StopIfPaused e (heap w ! q)") auto
  have w': "w' = w\<lparr>heap := (heap w)[q := h']\<rparr>" using st CallStopIfPaused q sp by auto
  show ?thesis
    unfolding w' CallStopIfPaused
    by (rule counted_update [OF cu q])
      (use StopIfPaused_counted [OF _ sp] cu q in \<open>auto simp: counted_unless_def\<close>)
qed

lemma run_counted:
  "world_inv (w, pend) \<Longrightarrow> count_inv n (w, pend) \<Longrightarrow> n + length cs < 2 ^ 63 \<Longrightarrow>
   run cs (w, pend) = Some (w', pend') \<Longrightarrow> counted_unless b w p \<Longrightarrow>
   counted_unless (last_abort p b cs (w, pend)) w' p"
proof (induction cs arbitrary: w pend n b)
  case Nil
  then show ?case by simp
next
  case (Cons c cs)
  from Cons.prems(4) obtain w1 pend1 where
    s: "step c (w, pend) = Some (w1, pend1)" and r: "run cs (w1, pend1) = Some (w', pend')"
    by (auto split: option.splits)
  let ?b1 = "case c of
               CallRunStart q e \<Rightarrow>
                 if q = p then aborts_Running (hset w) e (heap w ! p) else b
             | _ \<Rightarrow> b"
  have bn: "Suc n < 2 ^ 63" and bn1: "Suc n + length cs < 2 ^ 63"
    using Cons.prems(3) by simp_all
  have i1: "world_inv (w1, pend1)" by (rule step_inv [OF Cons.prems(1) s])
  have c1: "count_inv (Suc n) (w1, pend1)" by (rule count_step [OF Cons.prems(2) bn s])
  have u1: "counted_unless ?b1 w1 p"
    by (rule step_counted [OF Cons.prems(1,2) bn s Cons.prems(5)])
  have "last_abort p b (c # cs) (w, pend) = last_abort p ?b1 cs (w1, pend1)"
    using s by simp
  then show ?case using Cons.IH [OF i1 c1 bn1 r u1] by simp
qed

lemma run_append:
  "run (xs @ ys) s = (case run xs s of None \<Rightarrow> None | Some s' \<Rightarrow> run ys s')"
  by (induction xs arbitrary: s) (auto split: option.splits)

lemma leak_step:
  "step (CallRunStart 0 env_nochan) (w_count c, pend) = Some (w_count (c + 1), pend)"
  by (simp add: w_count_def h_running_def env_nochan_def env_ok_def RunStart_defs
      succeeded_def)

lemma leak_run:
  "run (replicate n (CallRunStart 0 env_nochan)) (w_count c, pend) =
     Some (w_count (c + of_nat n), pend)"
proof (induction n arbitrary: c)
  case 0
  then show ?case by simp
next
  case (Suc n)
  have a: "c + 1 + of_nat n = c + of_nat (Suc n)" by simp
  have "run (replicate (Suc n) (CallRunStart 0 env_nochan)) (w_count c, pend) =
          run (replicate n (CallRunStart 0 env_nochan)) (w_count (c + 1), pend)"
    by (simp only: replicate_Suc run.simps leak_step option.case)
  then show ?case using Suc [of "c + 1"] a by simp
qed

text \<open>
  Claim C2, as amended. Take a sequence of fewer than \<open>2 ^ 63\<close> calls of \<^verbatim>\<open>Get\<close>,
  \<^verbatim>\<open>RunStart\<close>, \<^verbatim>\<open>RunFinish\<close> and \<^verbatim>\<open>StopIfPaused\<close> in which each \<^verbatim>\<open>RunFinish\<close> answers a
  \<^verbatim>\<open>RunStart\<close> that returned without an error (every prefix of it is such a sequence
  too). After it every handler has a runner count of at least 0, and a runner count
  above 0 only in state \<^verbatim>\<open>Running\<close>. The whole invariant of the spec (also: state
  \<^verbatim>\<open>Running\<close> implies a runner count of at least 1, and runner count 0 implies state
  \<^verbatim>\<open>Paused\<close>, \<^verbatim>\<open>Stopped\<close> or \<^verbatim>\<open>Unitialized\<close>) holds of a handler unless the last
  \<^verbatim>\<open>RunStart\<close> on that very handler returned an error on the branch that creates the
  sandbox while the state copied from the new sandbox was \<^verbatim>\<open>Running\<close>: what happened to
  other handlers does not matter, and the next \<^verbatim>\<open>RunStart\<close> on the handler restores it.
\<close>

theorem runner_invariant_run:
  assumes "run cs (start opts) = Some (w, pend)" and "p < length (heap w)"
    and "length cs < 2 ^ 63"
  shows "0 \<le> sint (runners (heap w ! p)) \<and>
         (0 < sint (runners (heap w ! p)) \<longrightarrow> state (heap w ! p) = Running) \<and>
         (\<not> last_abort p False cs (start opts) \<longrightarrow> runner_invariant (heap w ! p))"
proof -
  have b0: "0 + length cs < (2::nat) ^ 63" using assms(3) by simp
  have ci: "count_inv (0 + length cs) (w, pend)"
    by (rule count_run [OF count_start b0 assms(1)])
  have hi: "handler_inv (heap w ! p) (pend p)"
    using ci assms(2) by (auto simp: count_inv_def)
  have a: "0 \<le> sint (runners (heap w ! p)) \<and>
           (0 < sint (runners (heap w ! p)) \<longrightarrow> state (heap w ! p) = Running)"
    using hi by (auto simp: handler_inv_def)
  have b: "runner_invariant (heap w ! p)" if na: "\<not> last_abort p False cs (start opts)"
  proof -
    have u0: "counted_unless False (new_world opts) p"
      by (simp add: counted_unless_def new_world_def)
    have "counted_unless (last_abort p False cs (new_world opts, \<lambda>p. 0)) w p"
      by (rule run_counted [OF world_inv_start [unfolded start_def]
            count_start [unfolded start_def] b0 assms(1) [unfolded start_def] u0])
    then have c: "state (heap w ! p) = Running \<longrightarrow> 1 \<le> sint (runners (heap w ! p))"
      using na assms(2) by (simp add: counted_unless_def start_def)
    have z: "runners (heap w ! p) = 0 \<longrightarrow> sint (runners (heap w ! p)) = 0" by simp
    from a c z show ?thesis
      by (cases "state (heap w ! p)") (auto simp: runner_invariant_def)
  qed
  from a b show ?thesis by blast
qed

theorem runner_invariant_run_witness:
  "run [CallGet ''hello'', CallRunStart 0 env_ok, CallRunFinish 0 env_ok] (start opts0) =
     Some (w_paused, (\<lambda>p. 0)(0 := Suc 0, 0 := Suc 0 - 1)) \<and>
   0 < length (heap w_paused) \<and>
   length [CallGet ''hello'', CallRunStart 0 env_ok, CallRunFinish 0 env_ok] < 2 ^ 63 \<and>
   \<not> last_abort 0 False [CallGet ''hello'', CallRunStart 0 env_ok, CallRunFinish 0 env_ok]
     (start opts0) \<and>
   runner_invariant (heap w_paused ! 0) \<and> runners (heap w_paused ! 0) = 0 \<and>
   state (heap w_paused ! 0) = Paused"
proof -
  have n: "\<not> last_abort 0 False
             [CallGet ''hello'', CallRunStart 0 env_ok, CallRunFinish 0 env_ok] (start opts0)"
    by (simp add: example_defs aborts_Running_def)
  have l: "length [CallGet ''hello'', CallRunStart 0 env_ok, CallRunFinish 0 env_ok]
             < (2::nat) ^ 63"
    by simp
  show ?thesis
    using runner_invariant_run [OF run_to_paused w_paused_0(1) l] run_to_paused w_paused_0(1)
      n l
    by (simp add: w_paused_0 h_paused_def)
qed

text \<open>
  The claim C2 as the spec states it fails. With a pool manager configured, \<^verbatim>\<open>Get\<close>
  followed by one \<^verbatim>\<open>RunStart\<close> whose new sandbox reports \<^verbatim>\<open>Running\<close> and is not a
  container sandbox returns the capability error and leaves the handler in state
  \<^verbatim>\<open>Running\<close> with runner count 0. And \<^verbatim>\<open>Get\<close> followed by \<open>2 ^ 63\<close> calls of \<^verbatim>\<open>RunStart\<close>
  whose \<^verbatim>\<open>Channel()\<close> fails leaves a runner count that has wrapped around to
  \<open>- (2 ^ 63)\<close>.
\<close>

theorem runner_invariant_run_counterexample:
  "handler_at 0
     (run [CallGet ''hello'', CallRunStart 0 (env_ok\<lparr>state_out := (Running, None)\<rparr>)]
        (start opts_pool)) = Some h_aborted \<and>
   \<not> runner_invariant h_aborted \<and>
   handler_at 0
     (run ([CallGet ''hello'', CallRunStart 0 env_nochan] @
           replicate (2 ^ 63 - 1) (CallRunStart 0 env_nochan))
        (start opts0)) = Some h_overflow \<and>
   sint (runners h_overflow) = - (2 ^ 63) \<and>
   \<not> runner_invariant h_overflow"
proof -
  have a: "handler_at 0
     (run [CallGet ''hello'', CallRunStart 0 (env_ok\<lparr>state_out := (Running, None)\<rparr>)]
        (start opts_pool)) = Some h_aborted \<and>
   \<not> runner_invariant h_aborted"
    by (simp add: example_defs handler_at_def runner_invariant_def)
  have b: "run [CallGet ''hello'', CallRunStart 0 env_nochan] (start opts0) =
             Some (w_count 1, \<lambda>p. 0)"
    by (simp add: example_defs)
  have c: "run (replicate (2 ^ 63 - 1) (CallRunStart 0 env_nochan)) (w_count 1, \<lambda>p. 0) =
             Some (w_count (1 + of_nat (2 ^ 63 - 1)), \<lambda>p. 0)"
    by (rule leak_run)
  have d: "(1 + of_nat (2 ^ 63 - 1) :: 64 word) = 2 ^ 63" by simp
  have e: "handler_at 0 (Some (w_count (2 ^ 63), \<lambda>p. 0)) = Some h_overflow"
    by (simp add: handler_at_def w_count_def h_running_def h_overflow_def)
  have f: "sint (runners h_overflow) = - (2 ^ 63)" by (simp add: h_overflow_def)
  have g: "\<not> runner_invariant h_overflow"
    using f by (simp add: runner_invariant_def)
  have "run ([CallGet ''hello'', CallRunStart 0 env_nochan] @
             replicate (2 ^ 63 - 1) (CallRunStart 0 env_nochan)) (start opts0) =
          Some (w_count (2 ^ 63), \<lambda>p. 0)"
    by (simp only: run_append b option.case c d)
  with a e f g show ?thesis by simp
qed

end
